theory Spec2Isabelle
  imports Main "HOL-Library.Multiset" "HOL-Library.Sublist"
begin

section \<open>Data model\<close>

text \<open>
  The extension keeps three kinds of plain JavaScript objects.

  \<^item> A \<^emph>\<open>VisitItem\<close> as delivered by \<^verbatim>\<open>chrome.history.getVisits\<close>: the fields
    \<^verbatim>\<open>visitId\<close>, \<^verbatim>\<open>referringVisitId\<close>, \<^verbatim>\<open>visitTime\<close>, \<^verbatim>\<open>transition\<close>.
    Chrome's visit ids are decimal strings; an id is modelled by the number it
    denotes, so the sentinel \<^verbatim>\<open>"0"\<close> of the source is \<open>0\<close>. An absent (falsy)
    \<^verbatim>\<open>referringVisitId\<close> is \<open>None\<close>.
  \<^item> A \<^emph>\<open>HistoryItem\<close> as delivered by \<^verbatim>\<open>chrome.history.search\<close>: \<^verbatim>\<open>url\<close> and
    \<^verbatim>\<open>title\<close>, both optional.
  \<^item> A tree node \<^verbatim>\<open>{ id, data: { visitData, historyItem }, children: [...] }\<close>.
\<close>

type_synonym visit_id = nat

text \<open>
  A JavaScript string is a sequence of UTF-16 code units; a code unit is modelled
  by its number. \<open>str\<close> is the JavaScript string of an ASCII literal.
\<close>

type_synonym code_unit = nat

type_synonym js_string = "code_unit list"

definition str :: "string \<Rightarrow> js_string" where
  "str s = map of_char s"

record visit_item =
  visitId :: visit_id
  referringVisitId :: "visit_id option"
  visitTime :: int
  transition :: js_string

record history_item =
  url :: "js_string option"
  title :: "js_string option"

record node_data =
  visitData :: visit_item
  historyItem :: "history_item option"

text \<open>
  A forest that is reached from its roots without sharing is a value of the
  datatype \<open>node\<close>. The payload is optional because the source guards every
  access to it (\<^verbatim>\<open>node?.data?.historyItem?.url\<close>, \<^verbatim>\<open>!node.data\<close>).
\<close>

datatype node = Node (nid: visit_id) (ndata: "node_data option") (children: "node list")

text \<open>
  The entry the normalizer stores for a visit:
  \<^verbatim>\<open>allVisitsMap.set(visit.visitId, { visitData: visit, historyItem: item })\<close>.
  \<open>pageVisit k r u ttl t\<close> is the entry of visit \<open>k\<close> at time \<open>t\<close> of the page with
  URL \<open>u\<close> and title \<open>ttl\<close> (two ASCII literals), reached from visit \<open>r\<close> (\<open>0\<close> when
  there is none).
\<close>

definition pageVisit :: "visit_id \<Rightarrow> visit_id \<Rightarrow> string \<Rightarrow> string \<Rightarrow> int \<Rightarrow> node_data" where
  "pageVisit k r u ttl t =
     \<lparr>visitData = \<lparr>visitId = k, referringVisitId = Some r, visitTime = t, transition = str ''link''\<rparr>,
      historyItem = Some \<lparr>url = Some (str u), title = Some (str ttl)\<rparr>\<rparr>"

text \<open>
  The node object the tree builder creates for an entry of the visit mapping:
  \<^verbatim>\<open>{ id: visitId, data: value, children: [] }\<close>.
\<close>

definition newNode :: "visit_id \<Rightarrow> node_data \<Rightarrow> node" where
  "newNode visit_id value = Node visit_id (Some value) []"


subsection \<open>Strings: properties\<close>

lemma str_eq_iff [simp]: "str a = str b \<longleftrightarrow> a = b"
proof -
  have "inj (of_char :: char \<Rightarrow> nat)"
    by (rule injI) simp
  then show ?thesis by (simp add: str_def inj_map_eq_map)
qed

lemma str_empty_iff [simp]: "str a = [] \<longleftrightarrow> a = []"
  by (simp add: str_def)

section \<open>Tree builder\<close>

text \<open>
  \<^verbatim>\<open>allVisitsMap\<close> is a JavaScript \<^verbatim>\<open>Map\<close> from visit id to \<^verbatim>\<open>{ visitData, historyItem }\<close>.
  It is modelled by the list of its entries in insertion order, the order in which
  \<^verbatim>\<open>forEach\<close> visits them; the keys of a \<^verbatim>\<open>Map\<close> are distinct.
\<close>

type_synonym visit_map = "(visit_id \<times> node_data) list"

text \<open>
  The builder works on node objects that refer to each other: \<^verbatim>\<open>nodes\<close> maps a visit
  id to its node object, and a \<^verbatim>\<open>children\<close> array or \<^verbatim>\<open>rootNodes\<close> holds references to
  node objects. There is one node object per visit id, so a reference is modelled
  by the visit id under which \<^verbatim>\<open>nodes\<close> holds the object, and \<^verbatim>\<open>child.id\<close> is that id.
\<close>

record node_obj =
  obj_id :: visit_id
  obj_data :: node_data
  obj_children :: "visit_id list"

type_synonym node_table = "visit_id \<rightharpoonup> node_obj"

text \<open>\<^verbatim>\<open>nodes[visitId] = { id: visitId, data: value, children: [] }\<close>\<close>

definition createNode :: "visit_id \<times> node_data \<Rightarrow> node_table \<Rightarrow> node_table" where
  "createNode entry nodes =
     (case entry of (visit_id, value) \<Rightarrow>
        nodes(visit_id \<mapsto> \<lparr>obj_id = visit_id, obj_data = value, obj_children = []\<rparr>))"

text \<open>
  \<^verbatim>\<open>referringVisitId && referringVisitId !== "0" && nodes[referringVisitId]\<close>: the
  referrer and its node object when the condition holds.
\<close>

definition referrerNode :: "node_table \<Rightarrow> visit_id option \<Rightarrow> (visit_id \<times> node_obj) option" where
  "referrerNode nodes ref =
     (case ref of
        None \<Rightarrow> None
      | Some r \<Rightarrow> if r \<noteq> 0 then (case nodes r of None \<Rightarrow> None | Some parentNode \<Rightarrow> Some (r, parentNode))
                 else None)"

text \<open>
  The body of the linking \<^verbatim>\<open>forEach\<close>: the current node is pushed to the children of
  its referrer's node unless a child with its id is there already, and to
  \<^verbatim>\<open>rootNodes\<close>, under the same proviso, when no referrer is found.
\<close>

definition linkNode ::
  "visit_id \<times> node_data \<Rightarrow> node_table \<times> visit_id list \<Rightarrow> node_table \<times> visit_id list" where
  "linkNode entry st =
     (case entry of (visit_id, value) \<Rightarrow>
      case st of (nodes, rootNodes) \<Rightarrow>
        (case referrerNode nodes (referringVisitId (visitData value)) of
           Some (r, parentNode) \<Rightarrow>
             if visit_id \<notin> set (obj_children parentNode)
             then (nodes(r \<mapsto> parentNode\<lparr>obj_children := obj_children parentNode @ [visit_id]\<rparr>),
                   rootNodes)
             else (nodes, rootNodes)
         | None \<Rightarrow>
             if visit_id \<notin> set rootNodes then (nodes, rootNodes @ [visit_id])
             else (nodes, rootNodes)))"

text \<open>
  \<^verbatim>\<open>Object.values(nodes).forEach(node => node.children.forEach(child => nonRootIds.add(child.id)))\<close>.
  The own properties of \<^verbatim>\<open>nodes\<close> are the keys of \<^verbatim>\<open>allVisitsMap\<close>.
\<close>

definition nonRootIds :: "node_table \<Rightarrow> visit_id list \<Rightarrow> visit_id set" where
  "nonRootIds nodes keys =
     (\<Union>k \<in> set keys. case nodes k of None \<Rightarrow> {} | Some n \<Rightarrow> set (obj_children n))"

text \<open>
  The tree-building phase of \<^verbatim>\<open>fetchAndBuildTree\<close>: create the node objects, link
  them, and keep as final roots the tentative roots that are no child of any node.
  The result is \<^verbatim>\<open>finalRootNodes\<close> together with the node objects it refers to.
\<close>

definition buildTree :: "visit_map \<Rightarrow> visit_id list \<times> node_table" where
  "buildTree allVisitsMap =
     (case fold linkNode allVisitsMap (fold createNode allVisitsMap Map.empty, []) of
        (nodes, rootNodes) \<Rightarrow>
          (filter (\<lambda>node. node \<notin> nonRootIds nodes (map fst allVisitsMap)) rootNodes, nodes))"

text \<open>
  The forest that \<^verbatim>\<open>finalRootNodes\<close> denotes is what a traversal sees that starts at
  the roots and follows the \<^verbatim>\<open>children\<close> references. \<open>unfoldNode\<close> reads the tree
  below a reference, at most \<open>fuel\<close> levels deep, and has no value when the objects
  below the reference lie deeper than that, as they do on a cycle of references.
  A forest of \<open>n\<close> node objects has at most \<open>n\<close> levels, so the tree-building phase
  reads its result with the number of visits as fuel.
\<close>

primrec unfoldNode :: "nat \<Rightarrow> node_table \<Rightarrow> visit_id \<Rightarrow> node option" where
  "unfoldNode 0 nodes r = None"
| "unfoldNode (Suc fuel) nodes r =
     (case nodes r of
        None \<Rightarrow> None
      | Some obj \<Rightarrow>
          map_option (Node (obj_id obj) (Some (obj_data obj)))
            (those (map (unfoldNode fuel nodes) (obj_children obj))))"

definition treeBuildingPhase :: "visit_map \<Rightarrow> node list option" where
  "treeBuildingPhase allVisitsMap =
     (case buildTree allVisitsMap of
        (finalRootNodes, nodes) \<Rightarrow>
          those (map (unfoldNode (length allVisitsMap) nodes) finalRootNodes))"

text \<open>The visit ids of the nodes of a forest, one entry per node, in preorder.\<close>

fun node_ids :: "node \<Rightarrow> visit_id list" where
  "node_ids (Node i d cs) = i # concat (map node_ids cs)"

definition forest_ids :: "node list \<Rightarrow> visit_id list" where
  "forest_ids forest = concat (map node_ids forest)"

text \<open>
  The referrer a visit resolves to: the \<^verbatim>\<open>referringVisitId\<close> of its entry when that is
  present, not \<open>0\<close>, and itself a key of the mapping. The referrer relation of a
  mapping relates every visit to the referrer it resolves to.
\<close>

definition parentOf :: "visit_map \<Rightarrow> visit_id \<Rightarrow> visit_id option" where
  "parentOf m k =
     (case map_of m k of
        None \<Rightarrow> None
      | Some v \<Rightarrow>
          (case referringVisitId (visitData v) of
             None \<Rightarrow> None
           | Some r \<Rightarrow> if r \<noteq> 0 \<and> r \<in> fst ` set m then Some r else None))"

definition referrer_rel :: "visit_map \<Rightarrow> (visit_id \<times> visit_id) set" where
  "referrer_rel m = {(k, r). parentOf m k = Some r}"

text \<open>The specification's example: visit 1 without referrer, visits 2 and 3 referred by 1.\<close>

definition example_visits :: visit_map where
  "example_visits =
     [(1, pageVisit 1 0 ''a'' ''A'' 100), (2, pageVisit 2 1 ''b'' ''B'' 200),
      (3, pageVisit 3 1 ''c'' ''C'' 150)]"

subsection \<open>Tree builder: properties\<close>

text \<open>
  The node table after the first \<open>done\<close> visits have been linked: the children of a
  node are the linked visits that resolve to it, in the order of the mapping.
\<close>

definition linkedTable :: "visit_map \<Rightarrow> visit_id list \<Rightarrow> node_table" where
  "linkedTable m done k =
     (case map_of m k of
        None \<Rightarrow> None
      | Some v \<Rightarrow> Some \<lparr>obj_id = k, obj_data = v,
                        obj_children = filter (\<lambda>c. parentOf m c = Some k) done\<rparr>)"

lemma fold_createNode:
  "distinct (map fst m) \<Longrightarrow> fold createNode m Map.empty = linkedTable m []"
proof (induction m rule: rev_induct)
  case Nil
  then show ?case by (simp add: linkedTable_def fun_eq_iff)
next
  case (snoc e m)
  obtain k v where e: "e = (k, v)" by (cases e)
  have k: "k \<notin> fst ` set m" using snoc.prems e by auto
  then have "map_of m k = None" by (simp add: map_of_eq_None_iff)
  then show ?case
    using snoc e by (auto simp: linkedTable_def fun_eq_iff createNode_def map_add_def split: option.splits)
qed

lemma fold_linkNode:
  assumes "distinct (map fst m)"
  shows "set xs \<subseteq> set m \<Longrightarrow> distinct (map fst xs) \<Longrightarrow>
         fold linkNode xs (linkedTable m [], [])
         = (linkedTable m (map fst xs), filter (\<lambda>c. parentOf m c = None) (map fst xs))"
proof (induction xs rule: rev_induct)
  case Nil
  then show ?case by simp
next
  case (snoc e xs)
  obtain k v where e: "e = (k, v)" by (cases e)
  have kv: "map_of m k = Some v" using snoc.prems(1) e assms by simp
  have knew: "k \<notin> set (map fst xs)" using snoc.prems(2) e by auto
  have ih: "fold linkNode xs (linkedTable m [], [])
         = (linkedTable m (map fst xs), filter (\<lambda>c. parentOf m c = None) (map fst xs))"
    using snoc by simp
  have step: "fold linkNode (xs @ [e]) (linkedTable m [], [])
         = linkNode (k, v) (linkedTable m (map fst xs), filter (\<lambda>c. parentOf m c = None) (map fst xs))"
    by (simp only: fold_append comp_apply fold_simps ih e)
  show ?case
  proof (cases "parentOf m k")
    case None
    then have "referrerNode (linkedTable m (map fst xs)) (referringVisitId (visitData v)) = None"
      using kv by (auto simp: parentOf_def referrerNode_def linkedTable_def
          map_of_eq_None_iff [symmetric] split: option.splits if_splits)
    then have "linkNode (k, v) (linkedTable m (map fst xs), filter (\<lambda>c. parentOf m c = None) (map fst xs))
        = (linkedTable m (map fst xs), filter (\<lambda>c. parentOf m c = None) (map fst xs) @ [k])"
      using knew by (simp add: linkNode_def)
    moreover have "linkedTable m (map fst (xs @ [e])) = linkedTable m (map fst xs)"
      using None by (simp add: e linkedTable_def fun_eq_iff split: option.splits)
    ultimately show ?thesis
      unfolding step using None by (simp add: e)
  next
    case (Some r)
    then obtain w where w: "map_of m r = Some w" and rv: "referringVisitId (visitData v) = Some r" "r \<noteq> 0"
      using kv by (cases "map_of m r")
        (auto simp: parentOf_def map_of_eq_None_iff split: option.splits if_splits)
    then have "referrerNode (linkedTable m (map fst xs)) (referringVisitId (visitData v))
             = Some (r, \<lparr>obj_id = r, obj_data = w,
                        obj_children = filter (\<lambda>c. parentOf m c = Some r) (map fst xs)\<rparr>)"
      by (simp add: referrerNode_def linkedTable_def)
    then have "linkNode (k, v) (linkedTable m (map fst xs), filter (\<lambda>c. parentOf m c = None) (map fst xs))
        = ((linkedTable m (map fst xs))
             (r \<mapsto> \<lparr>obj_id = r, obj_data = w,
                     obj_children = filter (\<lambda>c. parentOf m c = Some r) (map fst xs) @ [k]\<rparr>),
           filter (\<lambda>c. parentOf m c = None) (map fst xs))"
      using knew by (simp add: linkNode_def)
    moreover have "(linkedTable m (map fst xs))
             (r \<mapsto> \<lparr>obj_id = r, obj_data = w,
                     obj_children = filter (\<lambda>c. parentOf m c = Some r) (map fst xs) @ [k]\<rparr>)
         = linkedTable m (map fst (xs @ [e]))"
      using Some w by (auto simp add: e linkedTable_def fun_eq_iff split: option.splits)
    ultimately show ?thesis
      unfolding step using Some by (simp add: e)
  qed
qed

lemma parentOf_in_keys: "parentOf m c = Some r \<Longrightarrow> r \<in> fst ` set m \<and> c \<in> fst ` set m \<and> r \<noteq> 0"
  by (cases "map_of m c")
    (auto simp: parentOf_def split: option.splits if_splits dest: map_of_SomeD intro: rev_image_eqI)

lemma nonRootIds_linkedTable:
  "nonRootIds (linkedTable m (map fst m)) (map fst m) = {c \<in> fst ` set m. parentOf m c \<noteq> None}"
proof (intro set_eqI iffI)
  fix c
  assume "c \<in> nonRootIds (linkedTable m (map fst m)) (map fst m)"
  then show "c \<in> {c \<in> fst ` set m. parentOf m c \<noteq> None}"
    by (auto simp: nonRootIds_def linkedTable_def split: option.splits)
next
  fix c
  assume "c \<in> {c \<in> fst ` set m. parentOf m c \<noteq> None}"
  then obtain r where r: "parentOf m c = Some r" and c: "c \<in> fst ` set m" by auto
  then have "r \<in> fst ` set m" using parentOf_in_keys by blast
  then obtain w where w: "map_of m r = Some w"
    by (cases "map_of m r") (auto simp: map_of_eq_None_iff)
  have "c \<in> (case linkedTable m (map fst m) r of None \<Rightarrow> {} | Some n \<Rightarrow> set (obj_children n))"
    using r c w by (simp add: linkedTable_def)
  moreover have "r \<in> set (map fst m)" using \<open>r \<in> fst ` set m\<close> by simp
  ultimately show "c \<in> nonRootIds (linkedTable m (map fst m)) (map fst m)"
    unfolding nonRootIds_def by blast
qed

lemma buildTree_closed_form:
  assumes "distinct (map fst m)"
  shows "buildTree m = (filter (\<lambda>c. parentOf m c = None) (map fst m), linkedTable m (map fst m))"
proof -
  have "fold linkNode m (fold createNode m Map.empty, [])
      = (linkedTable m (map fst m), filter (\<lambda>c. parentOf m c = None) (map fst m))"
    using assms by (simp add: fold_createNode fold_linkNode)
  moreover have "filter (\<lambda>node. node \<notin> {c \<in> fst ` set m. parentOf m c \<noteq> None})
                   (filter (\<lambda>c. parentOf m c = None) (map fst m))
                 = filter (\<lambda>c. parentOf m c = None) (map fst m)"
    by (rule filter_True) auto
  ultimately show ?thesis
    by (simp only: buildTree_def nonRootIds_linkedTable prod.case)
qed

lemma those_eq_Some: "those xs = Some ys \<longleftrightarrow> xs = map Some ys"
  by (induction xs arbitrary: ys) (auto split: option.splits)

lemma those_map_Some:
  "those (map f xs) = Some ys \<longleftrightarrow> length ys = length xs \<and> (\<forall>i < length xs. f (xs ! i) = Some (ys ! i))"
  by (auto simp: those_eq_Some list_eq_iff_nth_eq)

lemma those_map_defined:
  assumes "\<And>x. x \<in> set xs \<Longrightarrow> f x \<noteq> None"
  shows "those (map f xs) = Some (map (\<lambda>x. the (f x)) xs)"
  using assms by (auto simp: those_eq_Some)

lemma distinct_concat_map:
  assumes "distinct xs"
    and "\<And>x. x \<in> set xs \<Longrightarrow> distinct (g x)"
    and "\<And>x y. x \<in> set xs \<Longrightarrow> y \<in> set xs \<Longrightarrow> x \<noteq> y \<Longrightarrow> set (g x) \<inter> set (g y) = {}"
  shows "distinct (concat (map g xs))"
  using assms by (induction xs) fastforce+

lemma single_valued_referrer_rel: "single_valued (referrer_rel m)"
  by (auto simp: single_valued_def referrer_rel_def)

lemma referrer_rel_keys: "(c, p) \<in> referrer_rel m \<Longrightarrow> c \<in> fst ` set m \<and> p \<in> fst ` set m"
  using parentOf_in_keys by (auto simp: referrer_rel_def)

lemma referrer_rel_finite: "finite (referrer_rel m)"
proof (rule finite_subset)
  show "referrer_rel m \<subseteq> (fst ` set m) \<times> (fst ` set m)"
    using referrer_rel_keys by auto
qed simp


lemma ancestors_of_child:
  assumes "parentOf m c = Some k"
  shows "{a. (c, a) \<in> (referrer_rel m)\<^sup>+} = insert k {a. (k, a) \<in> (referrer_rel m)\<^sup>+}"
proof (intro set_eqI iffI)
  fix a
  assume "a \<in> {a. (c, a) \<in> (referrer_rel m)\<^sup>+}"
  then have "(c, a) \<in> (referrer_rel m)\<^sup>+" by simp
  then obtain z where z: "(c, z) \<in> referrer_rel m" "(z, a) \<in> (referrer_rel m)\<^sup>*"
    by (auto dest: tranclD)
  then have "z = k" using assms by (simp add: referrer_rel_def)
  then show "a \<in> insert k {a. (k, a) \<in> (referrer_rel m)\<^sup>+}"
    using z(2) by (auto simp: rtrancl_eq_or_trancl)
next
  fix a
  assume a: "a \<in> insert k {a. (k, a) \<in> (referrer_rel m)\<^sup>+}"
  have ck: "(c, k) \<in> referrer_rel m" using assms by (simp add: referrer_rel_def)
  show "a \<in> {a. (c, a) \<in> (referrer_rel m)\<^sup>+}"
    using a ck by (auto intro: trancl_into_trancl2)
qed

lemma ancestors_in_keys: "{a. (k, a) \<in> (referrer_rel m)\<^sup>+} \<subseteq> fst ` set m"
proof
  fix a
  assume "a \<in> {a. (k, a) \<in> (referrer_rel m)\<^sup>+}"
  then have "(k, a) \<in> (referrer_rel m)\<^sup>+" by simp
  then obtain z where "(z, a) \<in> referrer_rel m" by (auto dest: tranclD2)
  then show "a \<in> fst ` set m" using referrer_rel_keys by blast
qed

lemma linkedTable_key:
  assumes "k \<in> fst ` set m"
  shows "\<exists>v. map_of m k = Some v
           \<and> linkedTable m ks k
             = Some \<lparr>obj_id = k, obj_data = v, obj_children = filter (\<lambda>c. parentOf m c = Some k) ks\<rparr>"
  using assms by (cases "map_of m k") (auto simp: linkedTable_def map_of_eq_None_iff)

lemma no_cycle_under_root:
  assumes root: "parentOf m r = None"
  shows "(k, r) \<in> (referrer_rel m)\<^sup>* \<Longrightarrow> (k, k) \<notin> (referrer_rel m)\<^sup>+"
proof (induction rule: converse_rtrancl_induct)
  case base
  show ?case
  proof
    assume "(r, r) \<in> (referrer_rel m)\<^sup>+"
    then obtain z where "(r, z) \<in> referrer_rel m" by (auto dest: tranclD)
    then show False using root by (simp add: referrer_rel_def)
  qed
next
  case (step k y)
  show ?case
  proof
    assume "(k, k) \<in> (referrer_rel m)\<^sup>+"
    then obtain z where z: "(k, z) \<in> referrer_rel m" "(z, k) \<in> (referrer_rel m)\<^sup>*"
      by (auto dest: tranclD)
    then have "z = y" using step.hyps(1) by (simp add: referrer_rel_def)
    then have "(y, y) \<in> (referrer_rel m)\<^sup>+"
      using z(2) step.hyps(1) by (auto intro: rtrancl_into_trancl1)
    then show False using step.IH by simp
  qed
qed

lemma unfoldNode_defined:
  assumes root: "parentOf m r = None"
  shows "(k, r) \<in> (referrer_rel m)\<^sup>* \<Longrightarrow> k \<in> fst ` set m \<Longrightarrow>
         card (fst ` set m) \<le> n + card {a. (k, a) \<in> (referrer_rel m)\<^sup>+} \<Longrightarrow>
         unfoldNode n (linkedTable m (map fst m)) k \<noteq> None"
proof (induction n arbitrary: k)
  case 0
  have "k \<notin> {a. (k, a) \<in> (referrer_rel m)\<^sup>+}"
    using no_cycle_under_root [OF root "0.prems"(1)] by simp
  then have "{a. (k, a) \<in> (referrer_rel m)\<^sup>+} \<subset> fst ` set m"
    using ancestors_in_keys [of k m] "0.prems"(2) by blast
  then have "card {a. (k, a) \<in> (referrer_rel m)\<^sup>+} < card (fst ` set m)"
    by (intro psubset_card_mono) simp_all
  then show ?case using "0.prems"(3) by simp
next
  case (Suc n)
  obtain v where v: "linkedTable m (map fst m) k
      = Some \<lparr>obj_id = k, obj_data = v, obj_children = filter (\<lambda>c. parentOf m c = Some k) (map fst m)\<rparr>"
    using linkedTable_key [OF Suc.prems(2)] by blast
  have "unfoldNode n (linkedTable m (map fst m)) c \<noteq> None"
    if "c \<in> set (filter (\<lambda>c. parentOf m c = Some k) (map fst m))" for c
  proof -
    have c: "c \<in> fst ` set m" "parentOf m c = Some k" using that by auto
    have cr: "(c, r) \<in> (referrer_rel m)\<^sup>*"
      using c(2) Suc.prems(1) by (auto simp: referrer_rel_def intro: converse_rtrancl_into_rtrancl)
    have fin: "finite {a. (k, a) \<in> (referrer_rel m)\<^sup>+}"
      using ancestors_in_keys [of k m] by (rule finite_subset) simp
    have "k \<notin> {a. (k, a) \<in> (referrer_rel m)\<^sup>+}"
      using no_cycle_under_root [OF root Suc.prems(1)] by simp
    then have "card {a. (c, a) \<in> (referrer_rel m)\<^sup>+} = Suc (card {a. (k, a) \<in> (referrer_rel m)\<^sup>+})"
      using fin by (simp add: ancestors_of_child [OF c(2)])
    then show ?thesis using Suc.IH [OF cr c(1)] Suc.prems(3) by simp
  qed
  then have "those (map (unfoldNode n (linkedTable m (map fst m)))
                    (filter (\<lambda>c. parentOf m c = Some k) (map fst m))) \<noteq> None"
    using those_map_defined [of "filter (\<lambda>c. parentOf m c = Some k) (map fst m)"
        "unfoldNode n (linkedTable m (map fst m))"] by simp
  then show ?case by (auto simp: v)
qed

text \<open>
  What is reached from a final root is a tree, whether or not the referrer relation
  has a cycle elsewhere: the tree-building phase always has a result.
\<close>

lemma treeBuildingPhase_defined:
  assumes dist: "distinct (map fst m)"
  shows "treeBuildingPhase m
         = Some (map (\<lambda>r. the (unfoldNode (length m) (linkedTable m (map fst m)) r))
                   (filter (\<lambda>c. parentOf m c = None) (map fst m)))"
proof -
  have card: "card (fst ` set m) \<le> length m"
    using card_image_le [of "set m" fst] card_length [of m] by simp
  have "unfoldNode (length m) (linkedTable m (map fst m)) r \<noteq> None"
    if "r \<in> set (filter (\<lambda>c. parentOf m c = None) (map fst m))" for r
  proof -
    have r: "r \<in> fst ` set m" "parentOf m r = None" using that by auto
    show ?thesis using unfoldNode_defined [OF r(2), of r "length m"] r(1) card by simp
  qed
  then show ?thesis
    using those_map_defined [of "filter (\<lambda>c. parentOf m c = None) (map fst m)"
        "unfoldNode (length m) (linkedTable m (map fst m))"]
    by (simp add: treeBuildingPhase_def buildTree_closed_form [OF dist])
qed

lemma descendants_step:
  "{x. (x, k) \<in> (referrer_rel m)\<^sup>*}
   = insert k (\<Union>c \<in> set (filter (\<lambda>c. parentOf m c = Some k) (map fst m)).
                 {x. (x, c) \<in> (referrer_rel m)\<^sup>*})"
proof (intro set_eqI iffI)
  fix x
  assume "x \<in> {x. (x, k) \<in> (referrer_rel m)\<^sup>*}"
  then have "(x, k) \<in> (referrer_rel m)\<^sup>*" by simp
  then show "x \<in> insert k (\<Union>c \<in> set (filter (\<lambda>c. parentOf m c = Some k) (map fst m)).
                 {x. (x, c) \<in> (referrer_rel m)\<^sup>*})"
  proof (cases rule: rtranclE)
    case base
    then show ?thesis by simp
  next
    case (step c)
    then have "parentOf m c = Some k" by (simp add: referrer_rel_def)
    moreover from this have "c \<in> fst ` set m" using parentOf_in_keys by blast
    ultimately show ?thesis using step(1) by auto
  qed
next
  fix x
  assume "x \<in> insert k (\<Union>c \<in> set (filter (\<lambda>c. parentOf m c = Some k) (map fst m)).
                 {x. (x, c) \<in> (referrer_rel m)\<^sup>*})"
  then show "x \<in> {x. (x, k) \<in> (referrer_rel m)\<^sup>*}"
    by (auto simp: referrer_rel_def intro: rtrancl_into_rtrancl)
qed

lemma siblings_disjoint:
  assumes ac: "acyclic (referrer_rel m)"
    and c: "parentOf m c = Some k" and c': "parentOf m c' = Some k" and ne: "c \<noteq> c'"
  shows "{x. (x, c) \<in> (referrer_rel m)\<^sup>*} \<inter> {x. (x, c') \<in> (referrer_rel m)\<^sup>*} = {}"
proof -
  have no: "(a, b) \<in> (referrer_rel m)\<^sup>* \<Longrightarrow> parentOf m a = Some k \<Longrightarrow> parentOf m b = Some k \<Longrightarrow> a = b"
    for a b
  proof (rule ccontr)
    assume ab: "(a, b) \<in> (referrer_rel m)\<^sup>*" and a: "parentOf m a = Some k"
      and b: "parentOf m b = Some k" and "a \<noteq> b"
    then have "(a, b) \<in> (referrer_rel m)\<^sup>+" by (simp add: rtrancl_eq_or_trancl)
    then obtain z where z: "(a, z) \<in> referrer_rel m" "(z, b) \<in> (referrer_rel m)\<^sup>*"
      by (auto dest: tranclD)
    then have "z = k" using a by (simp add: referrer_rel_def)
    then have "(k, b) \<in> (referrer_rel m)\<^sup>*" using z(2) by simp
    moreover have "(b, k) \<in> referrer_rel m" using b by (simp add: referrer_rel_def)
    ultimately have "(k, k) \<in> (referrer_rel m)\<^sup>+" by (rule rtrancl_into_trancl1)
    then show False using ac by (simp add: acyclic_def)
  qed
  show ?thesis
  proof (rule ccontr)
    assume "\<not> ?thesis"
    then obtain x where "(x, c) \<in> (referrer_rel m)\<^sup>*" "(x, c') \<in> (referrer_rel m)\<^sup>*" by auto
    then have "(c, c') \<in> (referrer_rel m)\<^sup>* \<or> (c', c) \<in> (referrer_rel m)\<^sup>*"
      using single_valued_confluent [OF single_valued_referrer_rel] by blast
    then show False using no c c' ne by blast
  qed
qed

lemma unfoldNode_ids:
  assumes ac: "acyclic (referrer_rel m)" and dist: "distinct (map fst m)"
  shows "unfoldNode n (linkedTable m (map fst m)) k = Some t \<Longrightarrow>
         set (node_ids t) = {x. (x, k) \<in> (referrer_rel m)\<^sup>*} \<and> distinct (node_ids t)"
proof (induction n arbitrary: k t)
  case 0
  then show ?case by simp
next
  case (Suc n)
  let ?T = "linkedTable m (map fst m)"
  define ch where "ch = filter (\<lambda>c. parentOf m c = Some k) (map fst m)"
  have ch_mem: "parentOf m c = Some k" if "c \<in> set ch" for c
    using that by (simp add: ch_def)
  from Suc.prems obtain obj where obj: "?T k = Some obj" by (auto split: option.splits)
  then have k: "k \<in> fst ` set m"
    using map_of_eq_None_iff [of m k] by (auto simp: linkedTable_def split: option.splits)
  obtain v where v: "?T k = Some \<lparr>obj_id = k, obj_data = v, obj_children = ch\<rparr>"
    using linkedTable_key [OF k] unfolding ch_def by blast
  from Suc.prems v obtain ts where ts: "those (map (unfoldNode n ?T) ch) = Some ts"
    and t: "t = Node k (Some v) ts" by auto
  have len: "length ts = length ch"
    and nth: "\<And>i. i < length ch \<Longrightarrow> unfoldNode n ?T (ch ! i) = Some (ts ! i)"
    using ts by (simp_all add: those_map_Some)
  define g where "g c = node_ids (the (unfoldNode n ?T c))" for c
  have ts_g: "map node_ids ts = map g ch"
    using len nth by (auto simp: list_eq_iff_nth_eq g_def)
  have gc: "set (g c) = {x. (x, c) \<in> (referrer_rel m)\<^sup>*} \<and> distinct (g c)" if cmem: "c \<in> set ch" for c
  proof -
    obtain i where i: "i < length ch" "ch ! i = c"
      using cmem in_set_conv_nth [of c ch] by blast
    then have "unfoldNode n ?T c = Some (ts ! i)" using nth by blast
    then show ?thesis using Suc.IH [of c "ts ! i"] by (simp add: g_def)
  qed
  have ids: "node_ids t = k # concat (map g ch)" by (simp add: t ts_g)
  have "set (node_ids t) = insert k (\<Union>c \<in> set ch. {x. (x, c) \<in> (referrer_rel m)\<^sup>*})"
    using gc by (simp add: ids)
  then have set_eq: "set (node_ids t) = {x. (x, k) \<in> (referrer_rel m)\<^sup>*}"
    unfolding ch_def by (simp only: descendants_step [of k m])
  have "k \<notin> set (concat (map g ch))"
  proof
    assume "k \<in> set (concat (map g ch))"
    then obtain c where c: "c \<in> set ch" "k \<in> set (g c)" by auto
    then have "(k, c) \<in> (referrer_rel m)\<^sup>*" using gc by blast
    moreover have "(c, k) \<in> referrer_rel m" using ch_mem [OF c(1)] by (simp add: referrer_rel_def)
    ultimately have "(k, k) \<in> (referrer_rel m)\<^sup>+" by (rule rtrancl_into_trancl1)
    then show False using ac by (simp add: acyclic_def)
  qed
  moreover have "distinct (concat (map g ch))"
  proof (rule distinct_concat_map)
    show "distinct ch" using dist by (simp add: ch_def)
    show "\<And>x. x \<in> set ch \<Longrightarrow> distinct (g x)" using gc by blast
    show "\<And>x y. x \<in> set ch \<Longrightarrow> y \<in> set ch \<Longrightarrow> x \<noteq> y \<Longrightarrow> set (g x) \<inter> set (g y) = {}"
      using gc siblings_disjoint [OF ac] ch_mem by simp
  qed
  ultimately show ?case using set_eq by (simp add: ids)
qed


lemma roots_disjoint:
  assumes r: "parentOf m r = None" and r': "parentOf m r' = None" and ne: "r \<noteq> r'"
  shows "{x. (x, r) \<in> (referrer_rel m)\<^sup>*} \<inter> {x. (x, r') \<in> (referrer_rel m)\<^sup>*} = {}"
proof -
  have no: "(a, b) \<in> (referrer_rel m)\<^sup>* \<Longrightarrow> parentOf m a = None \<Longrightarrow> a = b" for a b
    by (auto simp: referrer_rel_def elim: converse_rtranclE)
  show ?thesis
  proof (rule ccontr)
    assume "\<not> ?thesis"
    then obtain x where "(x, r) \<in> (referrer_rel m)\<^sup>*" "(x, r') \<in> (referrer_rel m)\<^sup>*" by auto
    then have "(r, r') \<in> (referrer_rel m)\<^sup>* \<or> (r', r) \<in> (referrer_rel m)\<^sup>*"
      using single_valued_confluent [OF single_valued_referrer_rel] by blast
    then show False using no r r' ne by blast
  qed
qed

lemma every_key_under_a_root:
  assumes ac: "acyclic (referrer_rel m)"
  shows "k \<in> fst ` set m \<Longrightarrow>
         \<exists>r \<in> fst ` set m. parentOf m r = None \<and> (k, r) \<in> (referrer_rel m)\<^sup>*"
proof (induction k rule: wf_induct_rule [OF finite_acyclic_wf_converse [OF referrer_rel_finite ac]])
  case (1 k)
  show ?case
  proof (cases "parentOf m k")
    case None
    then show ?thesis using "1.prems" by blast
  next
    case (Some p)
    then have e: "(k, p) \<in> referrer_rel m" by (simp add: referrer_rel_def)
    then have "p \<in> fst ` set m" using referrer_rel_keys by blast
    then obtain r where "r \<in> fst ` set m" "parentOf m r = None" "(p, r) \<in> (referrer_rel m)\<^sup>*"
      using "1.IH" [of p] e by auto
    then show ?thesis using e by (blast intro: converse_rtrancl_into_rtrancl)
  qed
qed

lemma acyclic_if_referrer_smaller:
  fixes R :: "(nat \<times> nat) set"
  assumes "\<And>c p. (c, p) \<in> R \<Longrightarrow> p < c"
  shows "acyclic R"
proof -
  have "R \<subseteq> less_than\<inverse>" using assms by auto
  moreover have "acyclic (less_than\<inverse>)" using wf_less_than by (simp add: wf_acyclic)
  ultimately show ?thesis by (rule acyclic_subset [rotated])
qed

lemma example_visits_acyclic: "acyclic (referrer_rel example_visits)"
  by (rule acyclic_if_referrer_smaller)
    (auto simp: referrer_rel_def parentOf_def example_visits_def pageVisit_def split: if_splits)

lemma example_visits_buildTree:
  "fst (buildTree example_visits) = [1]
   \<and> nonRootIds (snd (buildTree example_visits)) (map fst example_visits) = {2, 3}"
  by (simp add: buildTree_def example_visits_def createNode_def linkNode_def referrerNode_def
      nonRootIds_def pageVisit_def)

lemma example_visits_forest:
  "treeBuildingPhase example_visits = Some
     [Node 1 (Some (pageVisit 1 0 ''a'' ''A'' 100))
        [Node 2 (Some (pageVisit 2 1 ''b'' ''B'' 200)) [],
         Node 3 (Some (pageVisit 3 1 ''c'' ''C'' 150)) []]]"
  by (simp add: treeBuildingPhase_def buildTree_def example_visits_def createNode_def
      linkNode_def referrerNode_def nonRootIds_def pageVisit_def numeral_3_eq_3)

text \<open>
  C1. For a visit mapping (distinct keys) whose referrer relation is acyclic, the
  tree-building phase returns a forest, and the visit ids of the nodes of that
  forest are the keys of the mapping, each exactly once: the list of the ids of
  all nodes of the forest has no repetition and is a permutation of the keys.
\<close>

theorem forest_contains_every_visit_once:
  assumes dist: "distinct (map fst m)" and ac: "acyclic (referrer_rel m)"
  shows "\<exists>forest. treeBuildingPhase m = Some forest
           \<and> mset (forest_ids forest) = mset (map fst m)
           \<and> distinct (forest_ids forest)"
proof -
  let ?T = "linkedTable m (map fst m)"
  define roots where "roots = filter (\<lambda>c. parentOf m c = None) (map fst m)"
  define g where "g r = node_ids (the (unfoldNode (length m) ?T r))" for r
  have bt: "buildTree m = (roots, ?T)"
    using buildTree_closed_form [OF dist] by (simp add: roots_def)
  have root_mem: "r \<in> fst ` set m \<and> parentOf m r = None" if "r \<in> set roots" for r
    using that by (auto simp: roots_def)
  define forest where "forest = map (\<lambda>r. the (unfoldNode (length m) ?T r)) roots"
  have res: "treeBuildingPhase m = Some forest"
    using treeBuildingPhase_defined [OF dist] by (simp add: forest_def roots_def)
  have defined: "unfoldNode (length m) ?T r \<noteq> None" if "r \<in> set roots" for r
  proof -
    have "those (map (unfoldNode (length m) ?T) roots) = Some forest"
      using res by (simp add: treeBuildingPhase_def bt)
    then show ?thesis using that by (auto simp: those_eq_Some forest_def)
  qed
  have ids: "forest_ids forest = concat (map g roots)"
    unfolding forest_ids_def forest_def g_def by (simp add: comp_def)
  have gr: "set (g r) = {x. (x, r) \<in> (referrer_rel m)\<^sup>*} \<and> distinct (g r)" if rmem: "r \<in> set roots" for r
  proof -
    obtain t where "unfoldNode (length m) ?T r = Some t" using defined [OF rmem] by blast
    then show ?thesis using unfoldNode_ids [OF ac dist, of "length m" r t] by (simp add: g_def)
  qed
  have d: "distinct (forest_ids forest)"
    unfolding ids
  proof (rule distinct_concat_map)
    show "distinct roots" using dist by (simp add: roots_def)
    show "\<And>x. x \<in> set roots \<Longrightarrow> distinct (g x)" using gr by blast
    show "\<And>x y. x \<in> set roots \<Longrightarrow> y \<in> set roots \<Longrightarrow> x \<noteq> y \<Longrightarrow> set (g x) \<inter> set (g y) = {}"
      using gr roots_disjoint root_mem by simp
  qed
  have "set (forest_ids forest) = fst ` set m"
  proof (intro set_eqI iffI)
    fix x
    assume "x \<in> set (forest_ids forest)"
    then obtain r where r: "r \<in> set roots" "(x, r) \<in> (referrer_rel m)\<^sup>*"
      using gr by (auto simp: ids)
    then show "x \<in> fst ` set m"
      using root_mem [OF r(1)] referrer_rel_keys by (auto elim: converse_rtranclE)
  next
    fix x
    assume "x \<in> fst ` set m"
    then obtain r where "r \<in> fst ` set m" "parentOf m r = None" "(x, r) \<in> (referrer_rel m)\<^sup>*"
      using every_key_under_a_root [OF ac] by blast
    moreover from this have "r \<in> set roots" by (simp add: roots_def)
    ultimately show "x \<in> set (forest_ids forest)" using gr by (auto simp: ids)
  qed
  then have "mset (forest_ids forest) = mset (map fst m)"
    using d dist set_eq_iff_mset_eq_distinct [of "forest_ids forest" "map fst m"] by simp
  with res d show ?thesis by blast
qed

theorem forest_contains_every_visit_once_witness:
  "distinct (map fst example_visits)
   \<and> acyclic (referrer_rel example_visits)
   \<and> treeBuildingPhase example_visits = Some
       [Node 1 (Some (pageVisit 1 0 ''a'' ''A'' 100))
          [Node 2 (Some (pageVisit 2 1 ''b'' ''B'' 200)) [],
           Node 3 (Some (pageVisit 3 1 ''c'' ''C'' 150)) []]]
   \<and> mset (forest_ids
       [Node 1 (Some (pageVisit 1 0 ''a'' ''A'' 100))
          [Node 2 (Some (pageVisit 2 1 ''b'' ''B'' 200)) [],
           Node 3 (Some (pageVisit 3 1 ''c'' ''C'' 150)) []]]) = mset [1, 2, 3]"
proof -
  have h1: "distinct (map fst example_visits)" by (simp add: example_visits_def)
  have keys: "map fst example_visits = [1, 2, 3]" by (simp add: example_visits_def)
  obtain forest where f: "treeBuildingPhase example_visits = Some forest"
      "mset (forest_ids forest) = mset (map fst example_visits)"
    using forest_contains_every_visit_once [OF h1 example_visits_acyclic] by blast
  from f(1) have "forest = [Node 1 (Some (pageVisit 1 0 ''a'' ''A'' 100))
          [Node 2 (Some (pageVisit 2 1 ''b'' ''B'' 200)) [],
           Node 3 (Some (pageVisit 3 1 ''c'' ''C'' 150)) []]]"
    by (simp only: example_visits_forest option.inject)
  with f(2) keys h1 example_visits_acyclic example_visits_forest show ?thesis by simp
qed

text \<open>
  C8. In the output of the tree builder the final roots and the ids that stand in
  some children array are disjoint and together are exactly the keys of the
  mapping; no root is listed twice; every key has a node object; and a visit is
  a final root exactly when no node object lists it among its children.
\<close>

theorem roots_complement_children:
  assumes dist: "distinct (map fst m)"
  shows "set (fst (buildTree m)) \<inter> nonRootIds (snd (buildTree m)) (map fst m) = {}
       \<and> set (fst (buildTree m)) \<union> nonRootIds (snd (buildTree m)) (map fst m) = set (map fst m)
       \<and> distinct (fst (buildTree m))
       \<and> dom (snd (buildTree m)) = set (map fst m)
       \<and> (\<forall>k \<in> set (map fst m).
            (k \<in> set (fst (buildTree m)))
            = (\<forall>p n. snd (buildTree m) p = Some n \<longrightarrow> k \<notin> set (obj_children n)))"
proof -
  let ?T = "linkedTable m (map fst m)"
  have bt: "buildTree m = (filter (\<lambda>c. parentOf m c = None) (map fst m), ?T)"
    using buildTree_closed_form [OF dist] .
  have a: "set (fst (buildTree m)) \<inter> nonRootIds (snd (buildTree m)) (map fst m) = {}"
    by (auto simp: bt nonRootIds_linkedTable)
  have b: "set (fst (buildTree m)) \<union> nonRootIds (snd (buildTree m)) (map fst m) = set (map fst m)"
    by (auto simp: bt nonRootIds_linkedTable)
  have c: "distinct (fst (buildTree m))" using dist by (simp add: bt)
  have d: "dom (snd (buildTree m)) = set (map fst m)"
    using map_of_eq_None_iff [of m] by (auto simp: bt linkedTable_def dom_def split: option.splits)
  have e: "(k \<in> set (fst (buildTree m)))
            = (\<forall>p n. snd (buildTree m) p = Some n \<longrightarrow> k \<notin> set (obj_children n))"
    if k: "k \<in> set (map fst m)" for k
  proof
    assume "k \<in> set (fst (buildTree m))"
    then have "parentOf m k = None" by (simp add: bt)
    then show "\<forall>p n. snd (buildTree m) p = Some n \<longrightarrow> k \<notin> set (obj_children n)"
      by (auto simp: bt linkedTable_def split: option.splits)
  next
    assume no: "\<forall>p n. snd (buildTree m) p = Some n \<longrightarrow> k \<notin> set (obj_children n)"
    have "parentOf m k = None"
    proof (rule ccontr)
      assume "parentOf m k \<noteq> None"
      then obtain p where p: "parentOf m k = Some p" by auto
      then have "p \<in> fst ` set m" using parentOf_in_keys by blast
      then obtain v where v: "?T p = Some \<lparr>obj_id = p, obj_data = v,
            obj_children = filter (\<lambda>c. parentOf m c = Some p) (map fst m)\<rparr>"
        using linkedTable_key by blast
      have "k \<in> set (filter (\<lambda>c. parentOf m c = Some p) (map fst m))"
        using p k by simp
      moreover have "k \<notin> set (obj_children \<lparr>obj_id = p, obj_data = v,
            obj_children = filter (\<lambda>c. parentOf m c = Some p) (map fst m)\<rparr>)"
        using no v unfolding bt snd_conv by blast
      ultimately show False by simp
    qed
    then show "k \<in> set (fst (buildTree m))" using k by (simp add: bt)
  qed
  from a b c d e show ?thesis by blast
qed

theorem roots_complement_children_witness:
  "distinct (map fst example_visits)
   \<and> fst (buildTree example_visits) = [1]
   \<and> nonRootIds (snd (buildTree example_visits)) (map fst example_visits) = {2, 3}
   \<and> set (fst (buildTree example_visits))
       \<inter> nonRootIds (snd (buildTree example_visits)) (map fst example_visits) = {}
   \<and> set (fst (buildTree example_visits))
       \<union> nonRootIds (snd (buildTree example_visits)) (map fst example_visits) = {1, 2, 3}"
proof -
  have h1: "distinct (map fst example_visits)" by (simp add: example_visits_def)
  have keys: "set (map fst example_visits) = {1, 2, 3}" by (auto simp: example_visits_def)
  from roots_complement_children [OF h1] keys h1 example_visits_buildTree
  show ?thesis by (simp only: simp_thms)
qed

section \<open>Duplicate collapser\<close>

text \<open>
  \<^verbatim>\<open>node?.data?.historyItem?.url\<close>: the URL of a node, \<open>None\<close> when the node has no
  payload, the payload no history item, or the item no URL.
\<close>

definition node_url :: "node \<Rightarrow> js_string option" where
  "node_url n =
     (case ndata n of
        None \<Rightarrow> None
      | Some d \<Rightarrow> (case historyItem d of None \<Rightarrow> None | Some h \<Rightarrow> url h))"

text \<open>JavaScript truthiness of a string that may be absent: neither \<^verbatim>\<open>undefined\<close> nor \<^verbatim>\<open>""\<close>.\<close>

definition truthy :: "js_string option \<Rightarrow> bool" where
  "truthy s = (case s of None \<Rightarrow> False | Some v \<Rightarrow> v \<noteq> [])"

text \<open>\<^verbatim>\<open>currentUrl && nextUrl && currentUrl === nextUrl\<close>\<close>

definition sameUrl :: "node \<Rightarrow> node \<Rightarrow> bool" where
  "sameUrl a b = (truthy (node_url a) \<and> truthy (node_url b) \<and> node_url a = node_url b)"

text \<open>
  The marking loop, shared by the children pass and the root pass:
  \<^verbatim>\<open>for (let i = 0; i < nodes.length - 1; i++) if (same URL at i and i + 1) indicesToRemove.add(i)\<close>.
\<close>

function markLoop :: "nat \<Rightarrow> node list \<Rightarrow> nat set \<Rightarrow> nat set" where
  "markLoop i nodes indicesToRemove =
     (if i + 1 < length nodes
      then markLoop (i + 1) nodes
             (if sameUrl (nodes ! i) (nodes ! (i + 1))
              then insert i indicesToRemove else indicesToRemove)
      else indicesToRemove)"
  by pat_completeness auto
termination
  by (relation "measure (\<lambda>(i, ns, m). length ns - i)") auto

declare markLoop.simps [simp del]

text \<open>\<^verbatim>\<open>array.splice(i, 1)\<close>\<close>

definition splice1 :: "nat \<Rightarrow> 'a list \<Rightarrow> 'a list" where
  "splice1 i xs = take i xs @ drop (Suc i) xs"

text \<open>
  \<^verbatim>\<open>for (let i = node.children.length - 1; i >= 0; i--) if (indicesToRemove.has(i)) node.children.splice(i, 1)\<close>.
  The first argument is \<open>i + 1\<close>, so that the loop ends at \<open>0\<close>.
\<close>

primrec spliceLoop :: "nat \<Rightarrow> nat set \<Rightarrow> node list \<Rightarrow> node list" where
  "spliceLoop 0 indicesToRemove cs = cs"
| "spliceLoop (Suc i) indicesToRemove cs =
     spliceLoop i indicesToRemove (if i \<in> indicesToRemove then splice1 i cs else cs)"

text \<open>
  The part of \<^verbatim>\<open>filterConsecutiveDuplicatesInChildren\<close> between the early return and
  the recursion: mark, then splice when \<^verbatim>\<open>indicesToRemove.size > 0\<close>.
\<close>

definition removeMarkedChildren :: "node list \<Rightarrow> node list" where
  "removeMarkedChildren cs =
     (let indicesToRemove = markLoop 0 cs {}
      in if indicesToRemove \<noteq> {} then spliceLoop (length cs) indicesToRemove cs else cs)"

lemma markLoop_eq:
  "markLoop i ns M = M \<union> {j. i \<le> j \<and> j + 1 < length ns \<and> sameUrl (ns ! j) (ns ! (j + 1))}"
proof (induction i ns M rule: markLoop.induct)
  case (1 i ns M)
  show ?case
  proof (cases "i + 1 < length ns")
    case True
    have "{j. i \<le> j \<and> j + 1 < length ns \<and> sameUrl (ns ! j) (ns ! (j + 1))}
        = (if sameUrl (ns ! i) (ns ! (i + 1)) then {i} else {})
          \<union> {j. i + 1 \<le> j \<and> j + 1 < length ns \<and> sameUrl (ns ! j) (ns ! (j + 1))}"
      using True by (auto simp: le_Suc_eq Suc_le_eq dest: le_neq_implies_less)
    then show ?thesis
      using True "1.IH" [OF True] by (subst markLoop.simps) auto
  next
    case False
    then show ?thesis by (subst markLoop.simps) auto
  qed
qed

lemma spliceLoop_eq:
  "k \<le> length cs \<Longrightarrow> spliceLoop k M cs = nths (take k cs) (- M) @ drop k cs"
proof (induction k arbitrary: cs)
  case 0
  then show ?case by simp
next
  case (Suc k)
  have tk: "take (Suc k) cs = take k cs @ [cs ! k]"
    using Suc.prems by (simp add: take_Suc_conv_app_nth)
  show ?case
  proof (cases "k \<in> M")
    case True
    have "spliceLoop (Suc k) M cs = spliceLoop k M (splice1 k cs)" using True by simp
    also have "\<dots> = nths (take k (splice1 k cs)) (- M) @ drop k (splice1 k cs)"
      using Suc.prems by (intro Suc.IH) (simp add: splice1_def)
    also have "take k (splice1 k cs) = take k cs"
      using Suc.prems by (simp add: splice1_def)
    also have "drop k (splice1 k cs) = drop (Suc k) cs"
      using Suc.prems by (simp add: splice1_def)
    finally show ?thesis
      using True Suc.prems by (simp add: tk nths_append)
  next
    case False
    have "spliceLoop (Suc k) M cs = nths (take k cs) (- M) @ drop k cs"
      using False Suc.prems Suc.IH [of cs] by simp
    also have "drop k cs = cs ! k # drop (Suc k) cs"
      using Suc.prems by (simp add: Cons_nth_drop_Suc)
    finally show ?thesis
      using False Suc.prems by (simp add: tk nths_append)
  qed
qed

text \<open>
  The pairwise rule as a recursion over the sibling list: an element is dropped
  exactly when its immediate successor has the same URL.
\<close>

fun keepLast :: "node list \<Rightarrow> node list" where
  "keepLast [] = []"
| "keepLast [x] = [x]"
| "keepLast (x # y # r) = (if sameUrl x y then keepLast (y # r) else x # keepLast (y # r))"

definition unmarked :: "node list \<Rightarrow> nat set" where
  "unmarked cs = {i. \<not> (i + 1 < length cs \<and> sameUrl (cs ! i) (cs ! (i + 1)))}"

lemma nths_unmarked_keepLast: "nths cs (unmarked cs) = keepLast cs"
proof (induction cs rule: keepLast.induct)
  case 1
  then show ?case by simp
next
  case (2 x)
  then show ?case by (simp add: unmarked_def)
next
  case (3 x y r)
  have shift: "{j. Suc j \<in> unmarked (x # y # r)} = unmarked (y # r)"
    by (auto simp: unmarked_def)
  have zero: "0 \<in> unmarked (x # y # r) \<longleftrightarrow> \<not> sameUrl x y"
    by (simp add: unmarked_def)
  have "nths (x # y # r) (unmarked (x # y # r))
      = (if \<not> sameUrl x y then [x] else []) @ nths (y # r) (unmarked (y # r))"
    by (subst nths_Cons) (simp only: shift zero)
  then show ?case using 3 by simp
qed

lemma markLoop_compl: "- markLoop 0 cs {} = unmarked cs"
  by (auto simp: markLoop_eq unmarked_def)

lemma removeMarkedChildren_keepLast: "removeMarkedChildren cs = keepLast cs"
proof -
  have "nths cs (- markLoop 0 cs {}) = keepLast cs"
    by (simp only: markLoop_compl nths_unmarked_keepLast)
  moreover have "markLoop 0 cs {} = {} \<Longrightarrow> nths cs (- markLoop 0 cs {}) = cs"
    by (simp add: nths_all)
  ultimately show ?thesis
    by (auto simp: removeMarkedChildren_def Let_def spliceLoop_eq)
qed

lemma set_keepLast: "set (keepLast cs) \<subseteq> set cs"
  by (induction cs rule: keepLast.induct) auto

lemma set_removeMarkedChildren: "set (removeMarkedChildren cs) \<subseteq> set cs"
  by (simp add: removeMarkedChildren_keepLast set_keepLast)

lemma size_removeMarkedChildren:
  assumes "x \<in> set (removeMarkedChildren cs)"
  shows "size x < Suc (size_list size cs)"
proof -
  have "x \<in> set cs" using assms set_removeMarkedChildren by blast
  then have "size x \<le> size_list size cs" by (rule size_list_estimation') simp
  then show ?thesis by simp
qed

text \<open>
  \<^verbatim>\<open>filterConsecutiveDuplicatesInChildren(node)\<close>. The function returns early, without
  recursing, when the node has fewer than two children; otherwise it removes the
  marked children and calls itself on every remaining child
  (\<^verbatim>\<open>node.children.forEach(...)\<close>). The nodes of a forest are not shared, so the
  in-place update of each child is the \<open>map\<close> over the children.
\<close>

function filterConsecutiveDuplicatesInChildren :: "node \<Rightarrow> node" where
  "filterConsecutiveDuplicatesInChildren (Node i d cs) =
     (if length cs < 2 then Node i d cs
      else Node i d (map filterConsecutiveDuplicatesInChildren (removeMarkedChildren cs)))"
  by pat_completeness auto
termination
  by (relation "measure size") (auto simp: size_removeMarkedChildren)

text \<open>
  The root pass of \<^verbatim>\<open>fetchAndBuildTree\<close> copies the unmarked roots into a new array:
  \<^verbatim>\<open>for (let i = 0; i < finalRootNodes.length; i++) if (!rootsToRemoveIndices.has(i)) filteredRoots.push(finalRootNodes[i])\<close>.
\<close>

function copyLoop :: "nat \<Rightarrow> node list \<Rightarrow> nat set \<Rightarrow> node list \<Rightarrow> node list" where
  "copyLoop i roots rootsToRemoveIndices filteredRoots =
     (if i < length roots
      then copyLoop (i + 1) roots rootsToRemoveIndices
             (if i \<notin> rootsToRemoveIndices then filteredRoots @ [roots ! i] else filteredRoots)
      else filteredRoots)"
  by pat_completeness auto
termination
  by (relation "measure (\<lambda>(i, rs, m, acc). length rs - i)") auto

declare copyLoop.simps [simp del]

definition filterRootList :: "node list \<Rightarrow> node list" where
  "filterRootList finalRootNodes =
     (let rootsToRemoveIndices = markLoop 0 finalRootNodes {}
      in if rootsToRemoveIndices \<noteq> {}
         then copyLoop 0 finalRootNodes rootsToRemoveIndices []
         else finalRootNodes)"

text \<open>
  Step 5 of \<^verbatim>\<open>fetchAndBuildTree\<close>:
  \<^verbatim>\<open>if (shouldFilterDuplicates && finalRootNodes.length > 0) { children pass on every root; root pass }\<close>.
\<close>

definition applyDuplicateFiltering :: "bool \<Rightarrow> node list \<Rightarrow> node list" where
  "applyDuplicateFiltering shouldFilterDuplicates finalRootNodes =
     (if shouldFilterDuplicates \<and> length finalRootNodes > 0
      then filterRootList (map filterConsecutiveDuplicatesInChildren finalRootNodes)
      else finalRootNodes)"

text \<open>
  The specification speaks of maximal runs of consecutive siblings that share a URL.
  \<open>url_runs\<close> cuts a sibling list into these runs: a sibling joins the run of its
  successor when the two share a URL, and starts a run of its own otherwise. Two
  nodes share a URL when both have one and the two are equal (\<open>sameUrl\<close>).
\<close>

definition consRun :: "'a \<Rightarrow> 'a list list \<Rightarrow> 'a list list" where
  "consRun x gs = (case gs of [] \<Rightarrow> [[x]] | g # gs' \<Rightarrow> (x # g) # gs')"

fun url_runs :: "node list \<Rightarrow> node list list" where
  "url_runs [] = []"
| "url_runs [x] = [[x]]"
| "url_runs (x # y # r) =
     (if sameUrl x y then consRun x (url_runs (y # r)) else [x] # url_runs (y # r))"

subsection \<open>Duplicate collapser: properties\<close>

lemma copyLoop_eq:
  "copyLoop i rs M acc = acc @ nths (drop i rs) {j. j + i \<notin> M}"
proof (induction i rs M acc rule: copyLoop.induct)
  case (1 i rs M acc)
  show ?case
  proof (cases "i < length rs")
    case True
    have d: "drop i rs = rs ! i # drop (Suc i) rs"
      using True by (simp add: Cons_nth_drop_Suc)
    have "nths (drop i rs) {j. j + i \<notin> M}
        = (if i \<notin> M then [rs ! i] else []) @ nths (drop (Suc i) rs) {j. j + Suc i \<notin> M}"
      by (simp add: d nths_Cons)
    then show ?thesis
      using True "1.IH" [OF True] by (subst copyLoop.simps) simp
  next
    case False
    then show ?thesis by (subst copyLoop.simps) simp
  qed
qed

lemma filterRootList_keepLast: "filterRootList rs = keepLast rs"
proof -
  have "{j. j \<notin> markLoop 0 rs {}} = unmarked rs"
    using markLoop_compl [of rs] by (simp add: Compl_eq)
  then have "nths rs {j. j \<notin> markLoop 0 rs {}} = keepLast rs"
    by (simp only: nths_unmarked_keepLast)
  moreover have "markLoop 0 rs {} = {} \<Longrightarrow> nths rs {j. j \<notin> markLoop 0 rs {}} = rs"
    by (simp add: nths_all)
  ultimately show ?thesis
    by (auto simp: filterRootList_def Let_def copyLoop_eq)
qed

lemma url_runs_nonempty: "cs \<noteq> [] \<Longrightarrow> url_runs cs \<noteq> []"
  by (induction cs rule: url_runs.induct) (auto simp: consRun_def split: list.splits)

lemma keepLast_runs: "keepLast cs = map last (url_runs cs)"
proof (induction cs rule: url_runs.induct)
  case (3 x y r)
  obtain g gs where g: "url_runs (y # r) = g # gs"
    using url_runs_nonempty [of "y # r"] by (cases "url_runs (y # r)") auto
  have "g \<noteq> []"
    using g by (cases r) (auto simp: consRun_def split: if_splits list.splits)
  then show ?case using 3 g by (simp add: consRun_def)
qed simp_all


lemma url_runs_no_empty_run: "[] \<notin> set (url_runs cs)"
  by (induction cs rule: url_runs.induct) (auto simp: consRun_def split: list.splits)

lemma concat_url_runs: "concat (url_runs cs) = cs"
  by (induction cs rule: url_runs.induct) (auto simp: consRun_def split: list.splits)

lemma hd_hd_url_runs: "url_runs (y # r) = g # gs \<Longrightarrow> hd g = y"
  by (cases r) (auto simp: consRun_def split: if_splits list.splits)

lemma url_runs_share: "g \<in> set (url_runs cs) \<Longrightarrow> successively sameUrl g"
proof (induction cs arbitrary: g rule: url_runs.induct)
  case (3 x y r)
  obtain h hs where h: "url_runs (y # r) = h # hs"
    using url_runs_nonempty [of "y # r"] by (cases "url_runs (y # r)") auto
  have hh: "hd h = y" "h \<noteq> []"
    using h hd_hd_url_runs url_runs_no_empty_run [of "y # r"] by auto
  show ?case
  proof (cases "sameUrl x y")
    case True
    then have "g = x # h \<or> g \<in> set hs" using "3.prems" h by (auto simp: consRun_def)
    then show ?thesis
    proof
      assume "g = x # h"
      moreover have "successively sameUrl h" using "3.IH"(1) True h by simp
      ultimately show ?thesis using True hh by (simp add: successively_Cons)
    next
      assume "g \<in> set hs"
      then show ?thesis using "3.IH"(1) True h by simp
    qed
  next
    case False
    then show ?thesis using "3.prems" "3.IH"(2) by auto
  qed
qed auto

lemma url_runs_maximal:
  "successively (\<lambda>g h. \<not> sameUrl (last g) (hd h)) (url_runs cs)"
proof (induction cs rule: url_runs.induct)
  case (3 x y r)
  obtain h hs where h: "url_runs (y # r) = h # hs"
    using url_runs_nonempty [of "y # r"] by (cases "url_runs (y # r)") auto
  have hh: "hd h = y" "h \<noteq> []"
    using h hd_hd_url_runs url_runs_no_empty_run [of "y # r"] by auto
  show ?case
  proof (cases "sameUrl x y")
    case True
    then show ?thesis using 3 h hh by (auto simp: consRun_def successively_Cons)
  next
    case False
    then show ?thesis using 3 h hh by (auto simp: successively_Cons)
  qed
qed auto

lemma node_url_fCD [simp]:
  "node_url (filterConsecutiveDuplicatesInChildren n) = node_url n"
  by (cases n) (simp add: node_url_def)

text \<open>For nodes that carry a non-empty URL, sharing a URL is plain equality of the URLs.\<close>

lemma sameUrl_nonempty_urls:
  "node_url a = Some u \<Longrightarrow> u \<noteq> [] \<Longrightarrow> node_url b = Some v \<Longrightarrow> v \<noteq> [] \<Longrightarrow> sameUrl a b = (u = v)"
  by (simp add: sameUrl_def truthy_def)

lemma sameUrl_cong: "node_url a = node_url a' \<Longrightarrow> node_url b = node_url b' \<Longrightarrow> sameUrl a b = sameUrl a' b'"
  by (simp add: sameUrl_def)

lemma keepLast_map:
  assumes "\<And>x. node_url (f x) = node_url x"
  shows "keepLast (map f cs) = map f (keepLast cs)"
  by (induction cs rule: keepLast.induct) (auto simp: sameUrl_cong [OF assms assms])

lemma keepLast_head: "\<exists>z rest. keepLast (y # r) = z # rest \<and> node_url z = node_url y"
proof (induction r arbitrary: y)
  case Nil
  then show ?case by simp
next
  case (Cons y2 r)
  show ?case
  proof (cases "sameUrl y y2")
    case True
    then have "node_url y2 = node_url y" by (simp add: sameUrl_def)
    then show ?thesis using True Cons [of y2] by auto
  next
    case False
    then show ?thesis by simp
  qed
qed

lemma keepLast_idem: "keepLast (keepLast cs) = keepLast cs"
proof (induction cs rule: keepLast.induct)
  case (3 x y r)
  show ?case
  proof (cases "sameUrl x y")
    case True
    then show ?thesis using 3 by simp
  next
    case False
    obtain z rest where z: "keepLast (y # r) = z # rest" "node_url z = node_url y"
      using keepLast_head by blast
    have "\<not> sameUrl x z" using False z(2) by (simp add: sameUrl_def)
    then have "keepLast (x # keepLast (y # r)) = x # keepLast (keepLast (y # r))"
      by (simp add: z(1))
    then show ?thesis using False 3 by simp
  qed
qed simp_all

lemma fCD_idem:
  "filterConsecutiveDuplicatesInChildren (filterConsecutiveDuplicatesInChildren n)
   = filterConsecutiveDuplicatesInChildren n"
proof (induction n rule: filterConsecutiveDuplicatesInChildren.induct)
  case (1 i d cs)
  let ?F = filterConsecutiveDuplicatesInChildren
  show ?case
  proof (cases "length cs < 2")
    case True
    then show ?thesis by simp
  next
    case False
    let ?cs' = "map ?F (keepLast cs)"
    have again: "keepLast ?cs' = ?cs'"
      by (simp add: keepLast_map keepLast_idem)
    have ih: "map ?F ?cs' = ?cs'"
      using "1.IH" False by (simp add: removeMarkedChildren_keepLast)
    have "?F (Node i d cs) = Node i d ?cs'"
      using False by (simp add: removeMarkedChildren_keepLast)
    moreover have "?F (Node i d ?cs') = Node i d ?cs'"
      using again ih by (simp add: removeMarkedChildren_keepLast)
    ultimately show ?thesis by simp
  qed
qed

text \<open>
  What identifies a node among its siblings: its id and its payload. The children
  pass rewrites the children of the survivors, never their id or payload.
\<close>

definition node_label :: "node \<Rightarrow> visit_id \<times> node_data option" where
  "node_label n = (nid n, ndata n)"

text \<open>\<^verbatim>\<open>node.data.visitData.visitTime\<close>, \<open>None\<close> for a node without payload.\<close>

definition node_time :: "node \<Rightarrow> int option" where
  "node_time n = (case ndata n of None \<Rightarrow> None | Some d \<Rightarrow> Some (visitTime (visitData d)))"

text \<open>
  \<open>time_le a b\<close>: the visit of \<open>a\<close> is not later than the visit of \<open>b\<close>. A node
  without payload has no visit time and counts as earliest.
\<close>

definition time_le :: "node \<Rightarrow> node \<Rightarrow> bool" where
  "time_le a b =
     (case node_time a of
        None \<Rightarrow> True
      | Some s \<Rightarrow> (case node_time b of None \<Rightarrow> False | Some t \<Rightarrow> s \<le> t))"

lemma url_runs_are_maximal_runs:
  "concat (url_runs cs) = cs
   \<and> [] \<notin> set (url_runs cs)
   \<and> (\<forall>g \<in> set (url_runs cs). successively sameUrl g)
   \<and> successively (\<lambda>g h. \<not> sameUrl (last g) (hd h)) (url_runs cs)"
  using concat_url_runs url_runs_no_empty_run url_runs_share url_runs_maximal by blast

lemma node_label_fCD [simp]:
  "node_label (filterConsecutiveDuplicatesInChildren n) = node_label n"
  by (cases n) (simp add: node_label_def)

text \<open>
  C2. One application of the collapsing to a sibling list keeps, of every maximal
  run of consecutive siblings sharing a URL, exactly the last element: the
  children pass (\<open>removeMarkedChildren\<close>) and the root pass (\<open>filterRootList\<close>)
  both return the list of the last elements of the runs, in order. The same
  holds for the children of the node that \<open>filterConsecutiveDuplicatesInChildren\<close>
  returns, whose surviving children are compared by id and payload since their
  own children have been collapsed in turn. A sibling is removed exactly when
  its immediate successor shares its URL (second conjunct), so siblings with the
  same URL that are not adjacent lie in different runs and each run keeps its
  last element. Siblings share a URL when both carry a non-empty URL and the two
  URLs are equal.
\<close>

theorem collapse_keeps_last_of_each_run:
  "removeMarkedChildren cs = map last (url_runs cs)
   \<and> removeMarkedChildren cs
       = nths cs {i. \<not> (i + 1 < length cs \<and> sameUrl (cs ! i) (cs ! (i + 1)))}
   \<and> filterRootList cs = map last (url_runs cs)
   \<and> map node_label (children (filterConsecutiveDuplicatesInChildren (Node i d cs)))
       = map node_label (map last (url_runs cs))"
proof -
  have a: "removeMarkedChildren cs = map last (url_runs cs)"
    by (simp only: removeMarkedChildren_keepLast keepLast_runs)
  have b: "removeMarkedChildren cs
       = nths cs {i. \<not> (i + 1 < length cs \<and> sameUrl (cs ! i) (cs ! (i + 1)))}"
    using nths_unmarked_keepLast [of cs]
    by (simp only: removeMarkedChildren_keepLast unmarked_def)
  have c: "filterRootList cs = map last (url_runs cs)"
    by (simp only: filterRootList_keepLast keepLast_runs)
  have d: "map node_label (children (filterConsecutiveDuplicatesInChildren (Node i d cs)))
       = map node_label (map last (url_runs cs))"
  proof (cases "length cs < 2")
    case True
    then have "cs = [] \<or> (\<exists>x. cs = [x])"
      by (cases cs) (auto simp: length_Suc_conv)
    then show ?thesis by auto
  next
    case False
    then show ?thesis by (simp add: a [symmetric] comp_def)
  qed
  from a b c d show ?thesis by blast
qed

text \<open>
  Three siblings with the URLs \<open>x\<close>, \<open>y\<close>, \<open>x\<close>: the two visits of \<open>x\<close> are not
  adjacent and all three siblings stay. With the URLs \<open>x\<close>, \<open>x\<close>, \<open>x\<close>, \<open>y\<close> the
  run of three collapses to its last element.
\<close>

lemma collapse_examples:
  "removeMarkedChildren
     [newNode 11 (pageVisit 11 0 ''x'' ''X'' 10), newNode 12 (pageVisit 12 0 ''y'' ''Y'' 20),
      newNode 13 (pageVisit 13 0 ''x'' ''X'' 30)]
   = [newNode 11 (pageVisit 11 0 ''x'' ''X'' 10), newNode 12 (pageVisit 12 0 ''y'' ''Y'' 20),
      newNode 13 (pageVisit 13 0 ''x'' ''X'' 30)]
   \<and> filterRootList
     [newNode 11 (pageVisit 11 0 ''x'' ''X'' 10), newNode 12 (pageVisit 12 0 ''x'' ''X'' 20),
      newNode 13 (pageVisit 13 0 ''x'' ''X'' 30), newNode 14 (pageVisit 14 0 ''y'' ''Y'' 40)]
   = [newNode 13 (pageVisit 13 0 ''x'' ''X'' 30), newNode 14 (pageVisit 14 0 ''y'' ''Y'' 40)]"
  by (simp add: removeMarkedChildren_keepLast filterRootList_keepLast sameUrl_def
      node_url_def truthy_def newNode_def pageVisit_def)

text \<open>
  C3. The claim as stated fails: the collapser never reads a visit time. Of two
  adjacent siblings with the same URL, the first visited at time 200 and the
  second at time 100, the second survives, which is the older visit.
\<close>

theorem collapse_most_recent_counterexample:
  "removeMarkedChildren
     [newNode 11 (pageVisit 11 0 ''x'' ''X'' 200), newNode 12 (pageVisit 12 0 ''x'' ''X'' 100)]
   = [newNode 12 (pageVisit 12 0 ''x'' ''X'' 100)]
   \<and> filterRootList
     [newNode 11 (pageVisit 11 0 ''x'' ''X'' 200), newNode 12 (pageVisit 12 0 ''x'' ''X'' 100)]
   = [newNode 12 (pageVisit 12 0 ''x'' ''X'' 100)]
   \<and> url_runs [newNode 11 (pageVisit 11 0 ''x'' ''X'' 200), newNode 12 (pageVisit 12 0 ''x'' ''X'' 100)]
   = [[newNode 11 (pageVisit 11 0 ''x'' ''X'' 200), newNode 12 (pageVisit 12 0 ''x'' ''X'' 100)]]
   \<and> node_time (newNode 11 (pageVisit 11 0 ''x'' ''X'' 200)) = Some 200
   \<and> node_time (newNode 12 (pageVisit 12 0 ''x'' ''X'' 100)) = Some 100
   \<and> \<not> time_le (newNode 11 (pageVisit 11 0 ''x'' ''X'' 200)) (newNode 12 (pageVisit 12 0 ''x'' ''X'' 100))"
  by (simp add: removeMarkedChildren_keepLast filterRootList_keepLast sameUrl_def
      node_url_def truthy_def newNode_def pageVisit_def node_time_def time_le_def consRun_def)

lemma sorted_wrt_last_greatest:
  assumes "sorted_wrt P g" and "\<And>x. P x x" and "m \<in> set g"
  shows "P m (last g)"
  using assms
proof (induction g)
  case Nil
  then show ?case by simp
next
  case (Cons x g)
  show ?case
  proof (cases "g = []")
    case True
    then show ?thesis using Cons.prems by simp
  next
    case False
    then have "last g \<in> set g" by simp
    then show ?thesis using Cons False by auto
  qed
qed

lemma time_le_refl: "time_le m m"
  by (simp add: time_le_def split: option.splits)

text \<open>
  C3, amended. The survivor of the \<open>j\<close>-th run is the last-positioned node of that
  run, in the children pass and in the root pass. When the members of the run
  stand in the order of their visit times (no member later than a member after
  it), no member of the run was visited later than the survivor.
\<close>

theorem collapse_keeps_latest_of_time_ordered_run:
  assumes "j < length (url_runs cs)"
  shows "removeMarkedChildren cs ! j = last (url_runs cs ! j)
       \<and> filterRootList cs ! j = last (url_runs cs ! j)
       \<and> (sorted_wrt time_le (url_runs cs ! j) \<longrightarrow>
            (\<forall>m \<in> set (url_runs cs ! j). time_le m (removeMarkedChildren cs ! j)))"
proof -
  have a: "removeMarkedChildren cs ! j = last (url_runs cs ! j)"
    using assms by (simp add: removeMarkedChildren_keepLast keepLast_runs)
  have b: "filterRootList cs ! j = last (url_runs cs ! j)"
    using assms by (simp add: filterRootList_keepLast keepLast_runs)
  have "\<forall>m \<in> set (url_runs cs ! j). time_le m (last (url_runs cs ! j))"
    if "sorted_wrt time_le (url_runs cs ! j)"
    using sorted_wrt_last_greatest [OF that] time_le_refl by blast
  with a b show ?thesis by simp
qed

theorem collapse_keeps_latest_of_time_ordered_run_witness:
  "0 < length (url_runs [newNode 11 (pageVisit 11 0 ''x'' ''X'' 100), newNode 12 (pageVisit 12 0 ''x'' ''X'' 200),
                         newNode 13 (pageVisit 13 0 ''y'' ''Y'' 50)])
   \<and> sorted_wrt time_le
       (url_runs [newNode 11 (pageVisit 11 0 ''x'' ''X'' 100), newNode 12 (pageVisit 12 0 ''x'' ''X'' 200),
                  newNode 13 (pageVisit 13 0 ''y'' ''Y'' 50)] ! 0)
   \<and> removeMarkedChildren
       [newNode 11 (pageVisit 11 0 ''x'' ''X'' 100), newNode 12 (pageVisit 12 0 ''x'' ''X'' 200),
        newNode 13 (pageVisit 13 0 ''y'' ''Y'' 50)] ! 0
     = newNode 12 (pageVisit 12 0 ''x'' ''X'' 200)
   \<and> time_le (newNode 11 (pageVisit 11 0 ''x'' ''X'' 100)) (newNode 12 (pageVisit 12 0 ''x'' ''X'' 200))"
proof -
  let ?cs = "[newNode 11 (pageVisit 11 0 ''x'' ''X'' 100), newNode 12 (pageVisit 12 0 ''x'' ''X'' 200),
              newNode 13 (pageVisit 13 0 ''y'' ''Y'' 50)]"
  have runs: "url_runs ?cs = [[newNode 11 (pageVisit 11 0 ''x'' ''X'' 100), newNode 12 (pageVisit 12 0 ''x'' ''X'' 200)],
                              [newNode 13 (pageVisit 13 0 ''y'' ''Y'' 50)]]"
    by (simp add: sameUrl_def node_url_def truthy_def newNode_def pageVisit_def consRun_def)
  have h1: "0 < length (url_runs ?cs)" by (simp only: runs) simp
  have h2: "sorted_wrt time_le (url_runs ?cs ! 0)"
    by (simp only: runs) (simp add: time_le_def node_time_def newNode_def pageVisit_def)
  have "removeMarkedChildren ?cs ! 0 = last (url_runs ?cs ! 0)"
    using collapse_keeps_latest_of_time_ordered_run [OF h1] by blast
  then have c: "removeMarkedChildren ?cs ! 0 = newNode 12 (pageVisit 12 0 ''x'' ''X'' 200)"
    unfolding runs by simp
  have "\<forall>m \<in> set (url_runs ?cs ! 0). time_le m (removeMarkedChildren ?cs ! 0)"
    using collapse_keeps_latest_of_time_ordered_run [OF h1] h2 by blast
  then have d: "time_le (newNode 11 (pageVisit 11 0 ''x'' ''X'' 100)) (newNode 12 (pageVisit 12 0 ''x'' ''X'' 200))"
    unfolding runs c by simp
  from h1 h2 c d show ?thesis by blast
qed

text \<open>
  C4. The collapsing pass of \<^verbatim>\<open>fetchAndBuildTree\<close> (children pass on every root, then
  root pass) is idempotent, whether the option is switched on or off.
\<close>

theorem collapse_idempotent:
  "applyDuplicateFiltering b (applyDuplicateFiltering b forest) = applyDuplicateFiltering b forest"
proof -
  let ?F = filterConsecutiveDuplicatesInChildren
  have "keepLast (map ?F (keepLast (map ?F forest))) = keepLast (map ?F forest)"
    by (simp add: keepLast_map keepLast_idem fCD_idem)
  then show ?thesis
    by (simp add: applyDuplicateFiltering_def filterRootList_keepLast)
qed

section \<open>Search projector\<close>

text \<open>
  \<^verbatim>\<open>String.prototype.toLowerCase\<close> is a built-in of the JavaScript engine; what it
  returns depends on the Unicode tables of the engine. The functions of this
  section take it as their parameter \<open>toLowerCase\<close>, and nothing is assumed of it.
\<close>

text \<open>\<^verbatim>\<open>text.includes(searchString)\<close>: the search string occurs in the text at some position.\<close>

fun str_includes :: "js_string \<Rightarrow> js_string \<Rightarrow> bool" where
  "str_includes [] searchString = (searchString = [])"
| "str_includes (c # cs) searchString = (prefix searchString (c # cs) \<or> str_includes cs searchString)"

text \<open>\<^verbatim>\<open>s || ""\<close> for a string that may be absent.\<close>

definition orEmpty :: "js_string option \<Rightarrow> js_string" where
  "orEmpty s = (case s of None \<Rightarrow> [] | Some v \<Rightarrow> v)"

text \<open>
  \<^verbatim>\<open>filterAndCloneTree(nodes, searchTextLower)\<close> and its \<^verbatim>\<open>for (const node of nodes)\<close> loop,
  which carries the array \<^verbatim>\<open>filteredNodes\<close>. A node without \<^verbatim>\<open>data\<close> or without
  \<^verbatim>\<open>data.historyItem\<close> is passed over (\<^verbatim>\<open>continue\<close>). The clone
  \<^verbatim>\<open>{ ...node, children: filteredChildren }\<close> has the id and the payload of the node.
  The check \<^verbatim>\<open>if (!nodes) return []\<close> never applies: every node of a forest has its
  \<^verbatim>\<open>children\<close> array.
\<close>

fun filterAndCloneTree :: "(js_string \<Rightarrow> js_string) \<Rightarrow> node list \<Rightarrow> js_string \<Rightarrow> node list"
  and filterLoop ::
    "(js_string \<Rightarrow> js_string) \<Rightarrow> node list \<Rightarrow> js_string \<Rightarrow> node list \<Rightarrow> node list" where
  "filterAndCloneTree toLowerCase nodes searchTextLower =
     (if searchTextLower = [] then nodes else filterLoop toLowerCase nodes searchTextLower [])"
| "filterLoop toLowerCase [] searchTextLower filteredNodes = filteredNodes"
| "filterLoop toLowerCase (Node i d cs # rest) searchTextLower filteredNodes =
     (case d of
        None \<Rightarrow> filterLoop toLowerCase rest searchTextLower filteredNodes
      | Some dat \<Rightarrow>
          (case historyItem dat of
             None \<Rightarrow> filterLoop toLowerCase rest searchTextLower filteredNodes
           | Some item \<Rightarrow>
               (let nodeMatches =
                      (str_includes (toLowerCase (orEmpty (title item))) searchTextLower
                       \<or> str_includes (toLowerCase (orEmpty (url item))) searchTextLower);
                    filteredChildren = filterAndCloneTree toLowerCase cs searchTextLower
                in if nodeMatches \<or> length filteredChildren > 0
                   then filterLoop toLowerCase rest searchTextLower
                          (filteredNodes @ [Node i d filteredChildren])
                   else filterLoop toLowerCase rest searchTextLower filteredNodes)))"

text \<open>
  What \<^verbatim>\<open>toLowerCase\<close> returns for a string of code units below 256 (ASCII and the
  Latin-1 supplement): the letters \<^verbatim>\<open>A\<close> to \<^verbatim>\<open>Z\<close> (65 to 90) and the letters from 192
  to 222 other than the multiplication sign 215 move up by 32, every other code
  unit stays. It serves to run the functions on examples.
\<close>

definition lowerLatin1Unit :: "code_unit \<Rightarrow> code_unit" where
  "lowerLatin1Unit c =
     (if (65 \<le> c \<and> c \<le> 90) \<or> (192 \<le> c \<and> c \<le> 222 \<and> c \<noteq> 215) then c + 32 else c)"

definition lowerLatin1 :: "js_string \<Rightarrow> js_string" where
  "lowerLatin1 s = map lowerLatin1Unit s"

text \<open>
  The specification's words. A text contains a query as a case-insensitive
  substring when the query occurs in the text once both are in lower case.
\<close>

definition ci_contains :: "(js_string \<Rightarrow> js_string) \<Rightarrow> js_string \<Rightarrow> js_string \<Rightarrow> bool" where
  "ci_contains toLowerCase text query =
     (\<exists>before after. toLowerCase text = before @ toLowerCase query @ after)"

text \<open>A node has its payload when it has \<^verbatim>\<open>data\<close> and \<^verbatim>\<open>data.historyItem\<close>.\<close>

definition has_payload :: "node \<Rightarrow> bool" where
  "has_payload n = (case ndata n of None \<Rightarrow> False | Some dat \<Rightarrow> historyItem dat \<noteq> None)"





fun nodes_of :: "node \<Rightarrow> node list" where
  "nodes_of (Node i d cs) = Node i d cs # concat (map nodes_of cs)"


definition forest_nodes :: "node list \<Rightarrow> node list" where
  "forest_nodes forest = concat (map nodes_of forest)"


subsection \<open>Search projector: properties\<close>



text \<open>
  When lower case is taken code unit by code unit, a text contains a query as a
  case-insensitive substring exactly when some part of the text equals the
  query up to the case of its letters.
\<close>

lemma ci_contains_unitwise:
  "ci_contains (map f) t q
   \<longleftrightarrow> (\<exists>before part after. t = before @ part @ after \<and> map f part = map f q)"
proof
  assume "ci_contains (map f) t q"
  then obtain before after where "map f t = before @ map f q @ after"
    by (auto simp: ci_contains_def)
  then obtain b r where t1: "t = b @ r" and "before = map f b" and r: "map f q @ after = map f r"
    by (auto simp: map_eq_append_conv)
  from r obtain p a where "r = p @ a" and "map f q = map f p"
    by (auto simp: append_eq_map_conv)
  then show "\<exists>before part after. t = before @ part @ after \<and> map f part = map f q"
    using t1 by metis
next
  assume "\<exists>before part after. t = before @ part @ after \<and> map f part = map f q"
  then obtain before part after where "t = before @ part @ after" "map f part = map f q"
    by blast
  then have "map f t = map f before @ map f q @ map f after" by simp
  then show "ci_contains (map f) t q" unfolding ci_contains_def by blast
qed




lemma has_payload_payload: "has_payload (Node i d cs) = has_payload (Node i d cs')"
  by (simp add: has_payload_def)







section \<open>Selection range tracker\<close>

text \<open>
  \<^verbatim>\<open>visibleCheckboxes\<close> is the array of the rendered checkbox elements, assigned by
  \<^verbatim>\<open>renderTree\<close> whenever it renders a tree, and \<^verbatim>\<open>lastCheckedIndex\<close> is the anchor.
  The script declares neither of the two. \<^verbatim>\<open>lastCheckedIndex\<close> is written in one
  place only, the assignment \<^verbatim>\<open>lastCheckedIndex = currentIndex\<close> of
  \<^verbatim>\<open>handleShiftClickLogic\<close>, which creates the global variable when it first runs:
  until then the variable does not exist (\<open>None\<close>), and reading it throws a
  \<^verbatim>\<open>ReferenceError\<close>. A checkbox element carries its \<^verbatim>\<open>checked\<close> flag and the two
  \<^verbatim>\<open>dataset\<close> entries written by \<^verbatim>\<open>createNodeElement\<close>.
\<close>

datatype js_error = ReferenceError

record checkbox =
  checked :: bool
  dataset_url :: "js_string option"
  dataset_visitId :: visit_id

record selection =
  visibleCheckboxes :: "checkbox list"
  lastCheckedIndex :: "int option"

text \<open>
  The body of the range loop
  \<^verbatim>\<open>if (visibleCheckboxes[i]) visibleCheckboxes[i].checked = targetState\<close>:
  an index outside the array reads \<^verbatim>\<open>undefined\<close> and is skipped.
\<close>

definition setChecked :: "int \<Rightarrow> bool \<Rightarrow> checkbox list \<Rightarrow> checkbox list" where
  "setChecked i targetState boxes =
     (if 0 \<le> i \<and> i < int (length boxes)
      then boxes[nat i := (boxes ! nat i)\<lparr>checked := targetState\<rparr>]
      else boxes)"

text \<open>\<^verbatim>\<open>for (let i = start; i <= end; i++) { ... }\<close>\<close>

function rangeLoop :: "int \<Rightarrow> int \<Rightarrow> bool \<Rightarrow> checkbox list \<Rightarrow> checkbox list" where
  "rangeLoop i end_ix targetState boxes =
     (if i \<le> end_ix
      then rangeLoop (i + 1) end_ix targetState (setChecked i targetState boxes)
      else boxes)"
  by pat_completeness auto
termination
  by (relation "measure (\<lambda>(i, e, t, b). nat (e + 1 - i))") auto

declare rangeLoop.simps [simp del]

text \<open>
  \<^verbatim>\<open>handleShiftClickLogic(event, clickedCheckbox, currentIndex)\<close>. The arguments
  are \<^verbatim>\<open>event.shiftKey\<close>, \<^verbatim>\<open>clickedCheckbox.checked\<close> (the state of the clicked
  element after the browser toggled it) and \<^verbatim>\<open>currentIndex\<close>. The condition
  \<^verbatim>\<open>event.shiftKey && lastCheckedIndex !== -1 && lastCheckedIndex < visibleCheckboxes.length\<close>
  reads \<^verbatim>\<open>lastCheckedIndex\<close> only when the shift key is held.
\<close>

definition handleShiftClickLogic ::
  "selection \<Rightarrow> bool \<Rightarrow> bool \<Rightarrow> int \<Rightarrow> js_error + selection" where
  "handleShiftClickLogic st shiftKey clickedChecked currentIndex =
     (if shiftKey
      then
        (case lastCheckedIndex st of
           None \<Rightarrow> Inl ReferenceError
         | Some anchor \<Rightarrow>
             if anchor \<noteq> -1 \<and> anchor < int (length (visibleCheckboxes st))
             then
               let start = min anchor currentIndex;
                   end_ix = max anchor currentIndex;
                   targetState = clickedChecked
               in Inr (st\<lparr>visibleCheckboxes :=
                            rangeLoop start end_ix targetState (visibleCheckboxes st)\<rparr>)
             else Inr (st\<lparr>lastCheckedIndex := Some currentIndex\<rparr>))
      else Inr (st\<lparr>lastCheckedIndex := Some currentIndex\<rparr>))"

text \<open>
  A checkbox with the given state, and a page with seven visible checkboxes of
  which the one at index 5 is checked, with the anchor at index 2.
\<close>

definition box :: "bool \<Rightarrow> visit_id \<Rightarrow> checkbox" where
  "box c k = \<lparr>checked = c, dataset_url = None, dataset_visitId = k\<rparr>"

definition example_selection :: selection where
  "example_selection =
     \<lparr>visibleCheckboxes =
        [box False 20, box False 21, box False 22, box False 23, box False 24, box True 25,
         box False 26],
      lastCheckedIndex = Some 2\<rparr>"

subsection \<open>Selection range tracker: properties\<close>

lemma length_setChecked [simp]: "length (setChecked i t boxes) = length boxes"
  by (simp add: setChecked_def)

lemma nth_setChecked:
  "j < length boxes \<Longrightarrow>
   setChecked i t boxes ! j = (if int j = i then (boxes ! j)\<lparr>checked := t\<rparr> else boxes ! j)"
  by (auto simp: setChecked_def nth_list_update)

lemma length_rangeLoop [simp]: "length (rangeLoop i e t boxes) = length boxes"
proof (induction i e t boxes rule: rangeLoop.induct)
  case (1 i e t boxes)
  show ?case
    using "1.IH" by (subst rangeLoop.simps) simp
qed

lemma nth_rangeLoop:
  "j < length boxes \<Longrightarrow>
   rangeLoop i e t boxes ! j =
     (if i \<le> int j \<and> int j \<le> e then (boxes ! j)\<lparr>checked := t\<rparr> else boxes ! j)"
proof (induction i e t boxes rule: rangeLoop.induct)
  case (1 i e t boxes)
  show ?case
  proof (cases "i \<le> e")
    case True
    have "rangeLoop i e t boxes ! j = rangeLoop (i + 1) e t (setChecked i t boxes) ! j"
      using True by (subst rangeLoop.simps) simp
    also have "\<dots> = (if i + 1 \<le> int j \<and> int j \<le> e
                      then (setChecked i t boxes ! j)\<lparr>checked := t\<rparr>
                      else setChecked i t boxes ! j)"
      using "1.IH" [OF True] "1.prems" by simp
    also have "\<dots> = (if i \<le> int j \<and> int j \<le> e then (boxes ! j)\<lparr>checked := t\<rparr> else boxes ! j)"
      using True "1.prems" by (auto simp: nth_setChecked)
    finally show ?thesis .
  next
    case False
    then show ?thesis by (subst rangeLoop.simps) auto
  qed
qed

lemma example_shift_click:
  "handleShiftClickLogic example_selection True True 5
   = Inr \<lparr>visibleCheckboxes =
            [box False 20, box False 21, box True 22, box True 23, box True 24, box True 25,
             box False 26],
          lastCheckedIndex = Some 2\<rparr>"
  by (simp add: handleShiftClickLogic_def example_selection_def rangeLoop.simps setChecked_def
      box_def Let_def)

text \<open>
  C9. A shift-click while the anchor \<open>a\<close> is set (\<open>a \<noteq> -1\<close>) and below the length of
  the visible list returns normally: every checkbox whose index lies in
  \<open>[min a i, max a i]\<close> ends with the post-click state of the clicked checkbox,
  every other checkbox is left as it was, and the anchor is not changed.
\<close>

theorem shift_click_sets_range:
  assumes "lastCheckedIndex st = Some a"
    and "a \<noteq> -1"
    and "a < int (length (visibleCheckboxes st))"
  shows "\<exists>st'. handleShiftClickLogic st True t i = Inr st'
       \<and> lastCheckedIndex st' = Some a
       \<and> length (visibleCheckboxes st') = length (visibleCheckboxes st)
       \<and> (\<forall>j < length (visibleCheckboxes st).
            visibleCheckboxes st' ! j =
              (if min a i \<le> int j \<and> int j \<le> max a i
               then (visibleCheckboxes st ! j)\<lparr>checked := t\<rparr>
               else visibleCheckboxes st ! j))"
  using assms by (simp add: handleShiftClickLogic_def Let_def nth_rangeLoop)

text \<open>
  The specification's example: seven boxes, none checked but the one at index 5
  that has just been clicked, the anchor at index 2. After the shift-click the
  boxes at the indices 2 to 5 are checked, those at 1 and 6 are as before, and
  the anchor is still 2.
\<close>

theorem shift_click_sets_range_witness:
  "lastCheckedIndex example_selection = Some 2
   \<and> (2 :: int) \<noteq> -1
   \<and> 2 < int (length (visibleCheckboxes example_selection))
   \<and> (\<exists>st'. handleShiftClickLogic example_selection True True 5 = Inr st'
         \<and> lastCheckedIndex st' = Some 2
         \<and> visibleCheckboxes st' ! 1 = box False 21
         \<and> visibleCheckboxes st' ! 2 = box True 22
         \<and> visibleCheckboxes st' ! 3 = box True 23
         \<and> visibleCheckboxes st' ! 4 = box True 24
         \<and> visibleCheckboxes st' ! 5 = box True 25
         \<and> visibleCheckboxes st' ! 6 = box False 26)"
proof -
  have h0: "lastCheckedIndex example_selection = Some 2"
    and h1: "(2 :: int) \<noteq> -1"
    and h2: "2 < int (length (visibleCheckboxes example_selection))"
    by (simp_all add: example_selection_def)
  have boxes: "visibleCheckboxes example_selection
      = [box False 20, box False 21, box False 22, box False 23, box False 24, box True 25,
         box False 26]"
    by (simp add: example_selection_def)
  from shift_click_sets_range [OF h0 h1 h2, of True 5]
  obtain st' where r: "handleShiftClickLogic example_selection True True 5 = Inr st'"
    and a: "lastCheckedIndex st' = Some 2"
    and n: "\<forall>j < length (visibleCheckboxes example_selection).
            visibleCheckboxes st' ! j =
              (if min 2 5 \<le> int j \<and> int j \<le> max 2 5
               then (visibleCheckboxes example_selection ! j)\<lparr>checked := True\<rparr>
               else visibleCheckboxes example_selection ! j)"
    by blast
  have "visibleCheckboxes st' ! 1 = box False 21" "visibleCheckboxes st' ! 2 = box True 22"
    "visibleCheckboxes st' ! 3 = box True 23" "visibleCheckboxes st' ! 4 = box True 24"
    "visibleCheckboxes st' ! 5 = box True 25" "visibleCheckboxes st' ! 6 = box False 26"
    using n by (simp_all add: boxes box_def)
  with h0 h1 h2 r a show ?thesis by blast
qed

text \<open>
  A shift-click while the anchor holds \<open>-1\<close> or an index that is not below the
  length of the visible list takes the branch of a plain click: the anchor
  becomes the clicked index and no checkbox is written.
\<close>

lemma shift_click_stale_anchor:
  assumes "lastCheckedIndex st = Some a"
    and "a = -1 \<or> int (length (visibleCheckboxes st)) \<le> a"
  shows "handleShiftClickLogic st True t i = handleShiftClickLogic st False t i"
    and "handleShiftClickLogic st True t i = Inr (st\<lparr>lastCheckedIndex := Some i\<rparr>)"
  using assms by (auto simp: handleShiftClickLogic_def)

lemma plain_click_sets_anchor:
  "handleShiftClickLogic st False t i = Inr (st\<lparr>lastCheckedIndex := Some i\<rparr>)"
  by (simp add: handleShiftClickLogic_def)

lemma shift_click_unset_anchor:
  "lastCheckedIndex st = None \<Longrightarrow> handleShiftClickLogic st True t i = Inl ReferenceError"
  by (simp add: handleShiftClickLogic_def)

text \<open>
  C10. The comparison \<^verbatim>\<open>lastCheckedIndex !== -1\<close> treats \<open>-1\<close> as the unset anchor, but
  the script never declares \<^verbatim>\<open>lastCheckedIndex\<close> and never stores \<open>-1\<close> in it. On
  the page of seven boxes, before any plain click has created the variable, a
  shift-click on index 5 throws a \<^verbatim>\<open>ReferenceError\<close> and the anchor stays unset,
  where a plain click on index 5 moves the anchor to 5; a shift-click with the
  stale anchor 9, beyond the seven boxes, does behave as the plain click.
\<close>

theorem shift_click_unset_anchor_throws:
  "handleShiftClickLogic (example_selection\<lparr>lastCheckedIndex := None\<rparr>) True True 5
     = Inl ReferenceError
   \<and> handleShiftClickLogic (example_selection\<lparr>lastCheckedIndex := None\<rparr>) False True 5
     = Inr (example_selection\<lparr>lastCheckedIndex := Some 5\<rparr>)
   \<and> handleShiftClickLogic (example_selection\<lparr>lastCheckedIndex := Some 9\<rparr>) True True 5
     = Inr (example_selection\<lparr>lastCheckedIndex := Some 5\<rparr>)"
  by (simp add: handleShiftClickLogic_def example_selection_def)
section \<open>Rebuild cycle\<close>

text \<open>
  The page state that \<^verbatim>\<open>fetchAndBuildTree\<close> and \<^verbatim>\<open>renderTree\<close> write: the module variable
  \<^verbatim>\<open>currentFullTree\<close>, the content of the element \<^verbatim>\<open>historyTreeDiv\<close> (blank after
  \<^verbatim>\<open>innerHTML = ""\<close>, a text message, or a rendered tree) and whether the loading
  indicator is shown.
\<close>

datatype notice =
  InvalidDateRange
  | ErrorOccurred js_string
  | NoMatching js_string
  | AllFilteredOut
  | NoItemsFound

datatype display = Blank | Notice notice | TreeView "node list"

record page =
  currentFullTree :: "node list"
  historyTree :: display
  loadingShown :: bool

text \<open>
  \<^verbatim>\<open>node.data.visitData.visitTime\<close> as the sort key of \<^verbatim>\<open>renderTree\<close> and \<^verbatim>\<open>renderNode\<close>.
  Both sort only nodes that have their payload (see \<open>renderTree\<close>).
\<close>

definition visitTimeOf :: "node \<Rightarrow> int" where
  "visitTimeOf n = (case node_time n of None \<Rightarrow> 0 | Some t \<Rightarrow> t)"

text \<open>
  \<^verbatim>\<open>renderNode\<close> sorts the children array of the node in place, oldest first, and
  renders every child in turn; the result is the node as it is left behind.
  \<^verbatim>\<open>Array.prototype.sort\<close> is stable, as is \<open>sort_key\<close>.
\<close>

function renderNode :: "node \<Rightarrow> node" where
  "renderNode (Node i d cs) = Node i d (map renderNode (sort_key visitTimeOf cs))"
  by pat_completeness auto
termination
proof (relation "measure size")
  show "wf (measure size)" by simp
next
  fix i d cs x
  assume "x \<in> set (sort_key visitTimeOf cs)"
  then have "x \<in> set cs" by simp
  then have "size x \<le> size_list size cs" by (rule size_list_estimation') simp
  then show "(x, Node i d cs) \<in> measure size" by simp
qed

definition createTreeHtml :: "node list \<Rightarrow> node list" where
  "createTreeHtml nodes = map renderNode nodes"

text \<open>
  The array \<^verbatim>\<open>nodesToRender\<close> after \<^verbatim>\<open>renderTree\<close>: sorted in place, most recent root
  first, then rendered by \<^verbatim>\<open>createTreeHtml\<close>.
\<close>

definition renderOrder :: "node list \<Rightarrow> node list" where
  "renderOrder nodesToRender = createTreeHtml (sort_key (\<lambda>n. - visitTimeOf n) nodesToRender)"

text \<open>
  \<^verbatim>\<open>renderTree(nodesToRender)\<close>, with the trimmed value of the search box. It returns
  the new page state and the array it was given as it is left behind. Rendering
  a node without payload throws a \<^verbatim>\<open>TypeError\<close> (\<^verbatim>\<open>createNodeElement\<close> reads
  \<^verbatim>\<open>nodeData.historyItem\<close> and \<^verbatim>\<open>item.url\<close>); the result is then \<open>None\<close>.
\<close>

definition renderTree :: "node list \<Rightarrow> js_string \<Rightarrow> page \<Rightarrow> (page \<times> node list) option" where
  "renderTree nodesToRender searchTextValue st =
     (if length nodesToRender > 0
      then
        if list_all has_payload (forest_nodes nodesToRender)
        then
          let sorted = renderOrder nodesToRender
          in Some (st\<lparr>historyTree := TreeView sorted, loadingShown := False\<rparr>, sorted)
        else None
      else
        Some (st\<lparr>historyTree :=
                   Notice (if searchTextValue \<noteq> [] then NoMatching searchTextValue
                           else if length (currentFullTree st) > 0 then AllFilteredOut
                           else NoItemsFound),
                 loadingShown := False\<rparr>,
              nodesToRender))"

text \<open>
  \<^verbatim>\<open>renderFilteredTree()\<close>, with the trimmed value of the search box. With an empty
  search text \<^verbatim>\<open>filterAndCloneTree\<close> returns the array \<^verbatim>\<open>currentFullTree\<close> itself, which
  \<^verbatim>\<open>renderTree\<close> then sorts in place; with a search text it returns new arrays and
  clones and the stored forest is left alone.
\<close>

definition renderFilteredTree ::
  "(js_string \<Rightarrow> js_string) \<Rightarrow> js_string \<Rightarrow> page \<Rightarrow> page option" where
  "renderFilteredTree toLowerCase searchValue st =
     (let searchText = toLowerCase searchValue;
          nodesToRender = filterAndCloneTree toLowerCase (currentFullTree st) searchText
      in case renderTree nodesToRender searchValue st of
           None \<Rightarrow> None
         | Some (st', nodesAfter) \<Rightarrow>
             Some (if searchText = [] then st'\<lparr>currentFullTree := nodesAfter\<rparr> else st'))"

text \<open>
  What one run of \<^verbatim>\<open>fetchAndBuildTree\<close> reads from its environment: whether the two
  dates parse, the answer of \<^verbatim>\<open>chrome.history.search\<close> (an error message when it
  throws), the URL of the viewer page, the visit mapping that step 3 has collected
  when \<^verbatim>\<open>Promise.all\<close> settles, the state of the duplicate check box and the trimmed
  value of the search box.
\<close>

record fetch_env =
  datesValid :: bool
  searchAnswer :: "js_string + history_item list"
  historyPageUrl :: js_string
  collectedVisits :: visit_map
  shouldFilterDuplicates :: bool
  searchInput :: js_string

text \<open>
  \<^verbatim>\<open>fetchAndBuildTree\<close> is an \<^verbatim>\<open>async\<close> function: it runs until it returns or reaches an
  \<^verbatim>\<open>await\<close>. While it is suspended there, other event handlers run, among them
  further calls of \<^verbatim>\<open>fetchAndBuildTree\<close> (nothing guards against a second rebuild)
  and their continuations; they see the page state and can write it.
\<close>

datatype 'a progress = Finished 'a | Awaiting 'a

text \<open>The \<^verbatim>\<open>catch\<close> block of \<^verbatim>\<open>fetchAndBuildTree\<close>.\<close>

definition catchError :: "js_string \<Rightarrow> page \<Rightarrow> page" where
  "catchError message st =
     st\<lparr>historyTree := Notice (ErrorOccurred message), currentFullTree := [], loadingShown := False\<rparr>"

text \<open>
  A call of \<^verbatim>\<open>renderFilteredTree()\<close> inside the \<^verbatim>\<open>try\<close> block; the message of the
  \<^verbatim>\<open>TypeError\<close> is abbreviated.
\<close>

definition renderOrCatch :: "(js_string \<Rightarrow> js_string) \<Rightarrow> js_string \<Rightarrow> page \<Rightarrow> page" where
  "renderOrCatch toLowerCase searchValue st =
     (case renderFilteredTree toLowerCase searchValue st of
        None \<Rightarrow> catchError (str ''TypeError'') st
      | Some st' \<Rightarrow> st')"

text \<open>
  From the call to the first \<^verbatim>\<open>await\<close>: show the loading indicator, clear the tree
  element, reset \<^verbatim>\<open>currentFullTree\<close>, check the dates, start the history search.
\<close>

definition fetchBegin :: "fetch_env \<Rightarrow> page \<Rightarrow> page progress" where
  "fetchBegin env st =
     (let st1 = st\<lparr>loadingShown := True, historyTree := Blank, currentFullTree := []\<rparr>
      in if \<not> datesValid env
         then Finished (st1\<lparr>historyTree := Notice InvalidDateRange, loadingShown := False\<rparr>)
         else Awaiting st1)"

text \<open>
  From the answer of the history search to the second \<^verbatim>\<open>await\<close>, on the page state
  found when the run is resumed: drop the viewer's own URL, finish when nothing
  is left, else start fetching the visits.
\<close>

definition fetchAfterSearch ::
  "(js_string \<Rightarrow> js_string) \<Rightarrow> fetch_env \<Rightarrow> page \<Rightarrow> page progress" where
  "fetchAfterSearch toLowerCase env st =
     (case searchAnswer env of
        Inl message \<Rightarrow> Finished (catchError message st)
      | Inr historyItemsRaw \<Rightarrow>
          let historyItems = filter (\<lambda>item. url item \<noteq> Some (historyPageUrl env)) historyItemsRaw
          in if length historyItems = 0
             then Finished (renderOrCatch toLowerCase (searchInput env) (st\<lparr>currentFullTree := []\<rparr>))
             else Awaiting st)"

text \<open>
  From the collected visits to the end, on the page state found when the run is
  resumed: build the tree, collapse duplicates when asked, store the forest in
  \<^verbatim>\<open>currentFullTree\<close>, render.
\<close>

definition fetchAfterVisits ::
  "(js_string \<Rightarrow> js_string) \<Rightarrow> fetch_env \<Rightarrow> page \<Rightarrow> page option" where
  "fetchAfterVisits toLowerCase env st =
     (case treeBuildingPhase (collectedVisits env) of
        None \<Rightarrow> None
      | Some finalRootNodes \<Rightarrow>
          Some (renderOrCatch toLowerCase (searchInput env)
                  (st\<lparr>currentFullTree :=
                        applyDuplicateFiltering (shouldFilterDuplicates env) finalRootNodes\<rparr>)))"

text \<open>
  One run of \<^verbatim>\<open>fetchAndBuildTree\<close>. \<open>duringSearch\<close> and \<open>duringVisits\<close> are what the
  other handlers do to the page while the run is suspended at its first and at
  its second \<^verbatim>\<open>await\<close>. The result is the list of the page states the run leaves
  behind at its suspension points, in order, and the page state when it has
  finished.
\<close>

definition fetchAndBuildTree ::
  "(js_string \<Rightarrow> js_string) \<Rightarrow> fetch_env \<Rightarrow> (page \<Rightarrow> page) \<Rightarrow> (page \<Rightarrow> page) \<Rightarrow> page
   \<Rightarrow> (page list \<times> page) option" where
  "fetchAndBuildTree toLowerCase env duringSearch duringVisits st =
     (case fetchBegin env st of
        Finished final \<Rightarrow> Some ([], final)
      | Awaiting st1 \<Rightarrow>
          (case fetchAfterSearch toLowerCase env (duringSearch st1) of
             Finished final \<Rightarrow> Some ([st1], final)
           | Awaiting st2 \<Rightarrow>
               (case fetchAfterVisits toLowerCase env (duringVisits st2) of
                  None \<Rightarrow> None
                | Some final \<Rightarrow> Some ([st1, st2], final))))"

text \<open>A whole run, without interruption, as something that happens during another run.\<close>

definition wholeRebuild :: "(js_string \<Rightarrow> js_string) \<Rightarrow> fetch_env \<Rightarrow> page \<Rightarrow> page" where
  "wholeRebuild toLowerCase env st =
     (case fetchAndBuildTree toLowerCase env id id st of
        None \<Rightarrow> st
      | Some (suspended, final) \<Rightarrow> final)"

text \<open>
  A page that shows an earlier forest, an environment in which the history
  search succeeds and the visits of the example are collected, and a second
  environment in which a single visit is collected.
\<close>

definition example_env :: fetch_env where
  "example_env =
     \<lparr>datesValid = True,
      searchAnswer = Inr [\<lparr>url = Some (str ''a''), title = Some (str ''A'')\<rparr>,
                          \<lparr>url = Some (str ''b''), title = Some (str ''B'')\<rparr>,
                          \<lparr>url = Some (str ''c''), title = Some (str ''C'')\<rparr>],
      historyPageUrl = str ''chrome-extension://id/history.html'',
      collectedVisits = example_visits,
      shouldFilterDuplicates = False,
      searchInput = []\<rparr>"

definition other_env :: fetch_env where
  "other_env = example_env\<lparr>collectedVisits := [(9, pageVisit 9 0 ''a'' ''A'' 90)]\<rparr>"

definition example_page :: page where
  "example_page =
     \<lparr>currentFullTree = [newNode 7 (pageVisit 7 0 ''old'' ''Old'' 50)],
      historyTree = TreeView [newNode 7 (pageVisit 7 0 ''old'' ''Old'' 50)],
      loadingShown = False\<rparr>"

subsection \<open>Rebuild cycle: properties\<close>

lemma example_rebuild:
  "fetchAndBuildTree lowerLatin1 example_env id id example_page
   = Some ([\<lparr>currentFullTree = [], historyTree = Blank, loadingShown = True\<rparr>,
            \<lparr>currentFullTree = [], historyTree = Blank, loadingShown = True\<rparr>],
           \<lparr>currentFullTree =
               [Node 1 (Some (pageVisit 1 0 ''a'' ''A'' 100))
                 [Node 3 (Some (pageVisit 3 1 ''c'' ''C'' 150)) [],
                  Node 2 (Some (pageVisit 2 1 ''b'' ''B'' 200)) []]],
             historyTree = TreeView
               [Node 1 (Some (pageVisit 1 0 ''a'' ''A'' 100))
                 [Node 3 (Some (pageVisit 3 1 ''c'' ''C'' 150)) [],
                  Node 2 (Some (pageVisit 2 1 ''b'' ''B'' 200)) []]],
             loadingShown = False\<rparr>)"
  by (simp add: fetchAndBuildTree_def fetchBegin_def fetchAfterSearch_def fetchAfterVisits_def
      example_env_def example_page_def example_visits_forest renderOrCatch_def renderFilteredTree_def
      renderTree_def applyDuplicateFiltering_def lowerLatin1_def forest_nodes_def has_payload_def
      createTreeHtml_def visitTimeOf_def node_time_def pageVisit_def Let_def renderOrder_def)

lemma renderOrder_Nil [simp]: "renderOrder [] = []"
  by (simp add: renderOrder_def createTreeHtml_def)

lemma renderFilteredTree_slot:
  assumes "renderFilteredTree lc v st = Some st'"
  shows "currentFullTree st' = currentFullTree st
       \<or> currentFullTree st' = renderOrder (currentFullTree st)"
  using assms
  by (auto simp: renderFilteredTree_def renderTree_def Let_def split: option.splits if_splits)

lemma renderOrCatch_slot:
  "currentFullTree (renderOrCatch lc v st) = []
   \<or> currentFullTree (renderOrCatch lc v st) = currentFullTree st
   \<or> currentFullTree (renderOrCatch lc v st) = renderOrder (currentFullTree st)"
  using renderFilteredTree_slot [of lc v st]
  by (auto simp: renderOrCatch_def catchError_def split: option.splits)

lemma fetchBegin_cases:
  "(\<not> datesValid env \<and> fetchBegin env st
       = Finished \<lparr>currentFullTree = [], historyTree = Notice InvalidDateRange, loadingShown = False\<rparr>)
   \<or> (datesValid env \<and> fetchBegin env st
       = Awaiting \<lparr>currentFullTree = [], historyTree = Blank, loadingShown = True\<rparr>)"
  by (cases st) (simp add: fetchBegin_def Let_def)

lemma forest_nodes_append [simp]:
  "forest_nodes (a @ b) = forest_nodes a @ forest_nodes b"
  by (simp add: forest_nodes_def)

lemma forest_nodes_Nil [simp]: "forest_nodes [] = []"
  by (simp add: forest_nodes_def)

lemma forest_nodes_Cons:
  "forest_nodes (Node i d cs # rest) = Node i d cs # forest_nodes cs @ forest_nodes rest"
  by (simp add: forest_nodes_def)

lemma forest_nodes_payload_iff:
  "list_all has_payload (forest_nodes ns) \<longleftrightarrow> (\<forall>n \<in> set ns. list_all has_payload (nodes_of n))"
  by (auto simp: forest_nodes_def list_all_iff)

lemma filter_result_payload:
  "q \<noteq> [] \<Longrightarrow> list_all has_payload (forest_nodes (filterAndCloneTree lc ns q))"
  "q \<noteq> [] \<Longrightarrow> list_all has_payload (forest_nodes acc) \<Longrightarrow>
     list_all has_payload (forest_nodes (filterLoop lc ns q acc))"
proof (induction lc ns q and lc ns q acc rule: filterAndCloneTree_filterLoop.induct)
  case (1 lc nodes s)
  then show ?case by (simp add: forest_nodes_def)
next
  case (2 lc s acc)
  then show ?case by simp
next
  case (3 lc i d cs rest s acc)
  show ?case
  proof (cases d)
    case None
    then show ?thesis using 3 by simp
  next
    case (Some dat)
    show ?thesis
    proof (cases "historyItem dat")
      case None
      then show ?thesis using 3 Some by simp
    next
      case (Some item)
      note item = Some
      have kids: "list_all has_payload (forest_nodes (filterAndCloneTree lc cs s))"
        using "3.IH"(3) [OF \<open>d = Some dat\<close> item] "3.prems"(1) by simp
      have hp: "has_payload (Node i d (filterAndCloneTree lc cs s))"
        using \<open>d = Some dat\<close> item by (simp add: has_payload_def)
      have acc': "list_all has_payload (forest_nodes (acc @ [Node i d (filterAndCloneTree lc cs s)]))"
        using "3.prems"(2) kids hp by (simp add: forest_nodes_Cons)
      show ?thesis
        using "3.IH"(4) [OF \<open>d = Some dat\<close> item refl refl _ "3.prems"(1) acc']
          "3.IH"(5) [OF \<open>d = Some dat\<close> item refl refl _ "3.prems"(1) "3.prems"(2)]
          \<open>d = Some dat\<close> item
        by (auto simp: Let_def)
    qed
  qed
qed

lemma fCD_payload:
  "list_all has_payload (nodes_of n) \<Longrightarrow>
   list_all has_payload (nodes_of (filterConsecutiveDuplicatesInChildren n))"
proof (induction n rule: filterConsecutiveDuplicatesInChildren.induct)
  case (1 i d cs)
  show ?case
  proof (cases "length cs < 2")
    case True
    then show ?thesis using "1.prems" by simp
  next
    case False
    have sub: "set (removeMarkedChildren cs) \<subseteq> set cs" by (rule set_removeMarkedChildren)
    have "list_all has_payload (nodes_of (filterConsecutiveDuplicatesInChildren c))"
      if "c \<in> set (removeMarkedChildren cs)" for c
    proof -
      have "c \<in> set cs" using that sub by blast
      then have "list_all has_payload (nodes_of c)" using "1.prems" by (auto simp: list_all_iff)
      then show ?thesis using "1.IH" [OF False that] by simp
    qed
    moreover have "has_payload (Node i d (map filterConsecutiveDuplicatesInChildren (removeMarkedChildren cs)))"
      using "1.prems" has_payload_payload by auto
    ultimately show ?thesis using False by (auto simp: list_all_iff)
  qed
qed

lemma applyDuplicateFiltering_payload:
  assumes "list_all has_payload (forest_nodes forest)"
  shows "list_all has_payload (forest_nodes (applyDuplicateFiltering b forest))"
proof -
  have "list_all has_payload (nodes_of n)"
    if "n \<in> set (keepLast (map filterConsecutiveDuplicatesInChildren forest))" for n
  proof -
    have "n \<in> set (map filterConsecutiveDuplicatesInChildren forest)"
      using that set_keepLast by blast
    then show ?thesis using assms fCD_payload by (auto simp: forest_nodes_payload_iff)
  qed
  then show ?thesis
    using assms by (auto simp: applyDuplicateFiltering_def filterRootList_keepLast forest_nodes_payload_iff)
qed

lemma unfoldNode_payload:
  assumes "\<And>k obj. nodes k = Some obj \<Longrightarrow> historyItem (obj_data obj) \<noteq> None"
  shows "unfoldNode n nodes k = Some t \<Longrightarrow> list_all has_payload (nodes_of t)"
proof (induction n arbitrary: k t)
  case 0
  then show ?case by simp
next
  case (Suc n)
  from Suc.prems obtain obj ts where obj: "nodes k = Some obj"
    and ts: "those (map (unfoldNode n nodes) (obj_children obj)) = Some ts"
    and t: "t = Node (obj_id obj) (Some (obj_data obj)) ts"
    by (auto split: option.splits)
  have "list_all has_payload (nodes_of c)" if c: "c \<in> set ts" for c
  proof -
    obtain j where j: "j < length ts" "ts ! j = c" using c in_set_conv_nth [of c ts] by blast
    then have "unfoldNode n nodes (obj_children obj ! j) = Some c"
      using ts by (simp add: those_map_Some)
    then show ?thesis using Suc.IH by blast
  qed
  moreover have "has_payload t" using assms [OF obj] by (simp add: t has_payload_def)
  ultimately show ?case by (auto simp: t list_all_iff)
qed

lemma treeBuildingPhase_payload:
  assumes dist: "distinct (map fst m)"
    and items: "\<forall>e \<in> set m. historyItem (snd e) \<noteq> None"
    and forest: "treeBuildingPhase m = Some forest"
  shows "list_all has_payload (forest_nodes forest)"
proof -
  let ?T = "linkedTable m (map fst m)"
  let ?roots = "filter (\<lambda>c. parentOf m c = None) (map fst m)"
  have tab: "historyItem (obj_data obj) \<noteq> None" if tk: "?T k = Some obj" for k obj
  proof -
    obtain v where "map_of m k = Some v" "obj_data obj = v"
      using tk by (auto simp: linkedTable_def split: option.splits)
    then have "(k, v) \<in> set m" "obj_data obj = v" by (auto dest: map_of_SomeD)
    then show ?thesis using items by auto
  qed
  have "those (map (unfoldNode (length m) ?T) ?roots) = Some forest"
    using forest by (simp add: treeBuildingPhase_def buildTree_closed_form [OF dist])
  then have nth: "\<And>j. j < length ?roots \<Longrightarrow> unfoldNode (length m) ?T (?roots ! j) = Some (forest ! j)"
    and len: "length forest = length ?roots"
    by (simp_all add: those_map_Some)
  have "list_all has_payload (nodes_of t)" if t: "t \<in> set forest" for t
  proof -
    obtain j where j: "j < length forest" "forest ! j = t"
      using t in_set_conv_nth [of t forest] by blast
    then have "unfoldNode (length m) ?T (?roots ! j) = Some t" using nth len by simp
    then show ?thesis using unfoldNode_payload [of ?T] tab by blast
  qed
  then show ?thesis by (simp add: forest_nodes_payload_iff)
qed

lemma renderOrCatch_success:
  assumes "list_all has_payload (forest_nodes (currentFullTree st))"
  shows "currentFullTree (renderOrCatch lc v st)
         = (if lc v = [] then renderOrder (currentFullTree st) else currentFullTree st)"
proof (cases "lc v = []")
  case True
  then show ?thesis
    using assms
    by (auto simp: renderOrCatch_def renderFilteredTree_def renderTree_def Let_def)
next
  case False
  then have "list_all has_payload (forest_nodes (filterAndCloneTree lc (currentFullTree st) (lc v)))"
    by (rule filter_result_payload(1))
  then show ?thesis
    using False
    by (auto simp: renderOrCatch_def renderFilteredTree_def renderTree_def Let_def
        simp del: filterAndCloneTree.simps)
qed

lemma renderOrCatch_empty:
  "currentFullTree st = [] \<Longrightarrow> currentFullTree (renderOrCatch lc v st) = []"
  using renderOrCatch_slot [of lc v st] by auto

text \<open>The second stretch either suspends without writing the page or ends with an empty slot.\<close>

lemma fetchAfterSearch_Awaiting:
  assumes "fetchAfterSearch lc env p = Awaiting s"
  shows "s = p"
    and "\<exists>items. searchAnswer env = Inr items
           \<and> filter (\<lambda>item. url item \<noteq> Some (historyPageUrl env)) items \<noteq> []"
  using assms by (auto simp: fetchAfterSearch_def Let_def split: sum.splits if_splits)

lemma fetchAfterSearch_Finished:
  assumes "fetchAfterSearch lc env p = Finished final"
  shows "currentFullTree final = []"
    and "isl (searchAnswer env)
         \<or> (\<exists>items. searchAnswer env = Inr items
              \<and> filter (\<lambda>item. url item \<noteq> Some (historyPageUrl env)) items = [])"
proof -
  show "currentFullTree final = []"
    using assms renderOrCatch_empty [of "p\<lparr>currentFullTree := []\<rparr>" lc "searchInput env"]
    by (auto simp: fetchAfterSearch_def catchError_def Let_def split: sum.splits if_splits)
  show "isl (searchAnswer env)
         \<or> (\<exists>items. searchAnswer env = Inr items
              \<and> filter (\<lambda>item. url item \<noteq> Some (historyPageUrl env)) items = [])"
    using assms by (auto simp: fetchAfterSearch_def Let_def split: sum.splits if_splits)
qed

text \<open>
  A second rebuild that runs from start to end while the first one waits for
  the history search: the first run then suspends a second time on a page whose
  \<^verbatim>\<open>currentFullTree\<close> holds the forest of the second run, and overwrites it with its
  own forest when it finishes.
\<close>

lemma example_overlapping_rebuilds:
  "fetchAndBuildTree lowerLatin1 example_env (wholeRebuild lowerLatin1 other_env) id example_page
   = Some ([\<lparr>currentFullTree = [], historyTree = Blank, loadingShown = True\<rparr>,
            \<lparr>currentFullTree = [Node 9 (Some (pageVisit 9 0 ''a'' ''A'' 90)) []],
              historyTree = TreeView [Node 9 (Some (pageVisit 9 0 ''a'' ''A'' 90)) []],
              loadingShown = False\<rparr>],
           \<lparr>currentFullTree =
               [Node 1 (Some (pageVisit 1 0 ''a'' ''A'' 100))
                 [Node 3 (Some (pageVisit 3 1 ''c'' ''C'' 150)) [],
                  Node 2 (Some (pageVisit 2 1 ''b'' ''B'' 200)) []]],
             historyTree = TreeView
               [Node 1 (Some (pageVisit 1 0 ''a'' ''A'' 100))
                 [Node 3 (Some (pageVisit 3 1 ''c'' ''C'' 150)) [],
                  Node 2 (Some (pageVisit 2 1 ''b'' ''B'' 200)) []]],
             loadingShown = False\<rparr>)"
proof -
  have other: "treeBuildingPhase [(9, pageVisit 9 0 ''a'' ''A'' 90)]
               = Some [Node 9 (Some (pageVisit 9 0 ''a'' ''A'' 90)) []]"
    by (simp add: treeBuildingPhase_def buildTree_def createNode_def linkNode_def referrerNode_def
        nonRootIds_def pageVisit_def Let_def)
  have w: "wholeRebuild lowerLatin1 other_env
             \<lparr>currentFullTree = [], historyTree = Blank, loadingShown = True\<rparr>
           = \<lparr>currentFullTree = [Node 9 (Some (pageVisit 9 0 ''a'' ''A'' 90)) []],
              historyTree = TreeView [Node 9 (Some (pageVisit 9 0 ''a'' ''A'' 90)) []],
              loadingShown = False\<rparr>"
    by (simp add: wholeRebuild_def fetchAndBuildTree_def fetchBegin_def fetchAfterSearch_def
        fetchAfterVisits_def other_env_def example_env_def other Let_def)
      (simp add: renderOrCatch_def
        renderFilteredTree_def renderTree_def applyDuplicateFiltering_def lowerLatin1_def
        forest_nodes_def has_payload_def createTreeHtml_def visitTimeOf_def node_time_def
        pageVisit_def Let_def renderOrder_def)
  show ?thesis
    by (simp add: fetchAndBuildTree_def fetchBegin_def example_page_def example_env_def w Let_def)
      (simp add: fetchAfterSearch_def fetchAfterVisits_def
        example_visits_forest renderOrCatch_def renderFilteredTree_def
        renderTree_def applyDuplicateFiltering_def lowerLatin1_def forest_nodes_def has_payload_def
        createTreeHtml_def visitTimeOf_def node_time_def pageVisit_def Let_def renderOrder_def)
qed

text \<open>
  C7. The claim as stated fails: \<^verbatim>\<open>fetchAndBuildTree\<close> resets \<^verbatim>\<open>currentFullTree\<close> and clears
  the tree element before its first \<^verbatim>\<open>await\<close>. A page that stores and shows a
  forest is, at both suspension points of a rebuild that nothing interrupts, a
  page with an empty \<^verbatim>\<open>currentFullTree\<close> and a blank tree element.
\<close>

theorem rebuild_previous_forest_counterexample:
  "currentFullTree example_page = [newNode 7 (pageVisit 7 0 ''old'' ''Old'' 50)]
   \<and> historyTree example_page = TreeView [newNode 7 (pageVisit 7 0 ''old'' ''Old'' 50)]
   \<and> fetchBegin example_env example_page
     = Awaiting \<lparr>currentFullTree = [], historyTree = Blank, loadingShown = True\<rparr>
   \<and> map_option fst (fetchAndBuildTree lowerLatin1 example_env id id example_page)
     = Some [\<lparr>currentFullTree = [], historyTree = Blank, loadingShown = True\<rparr>,
             \<lparr>currentFullTree = [], historyTree = Blank, loadingShown = True\<rparr>]"
  by (simp add: example_rebuild) (simp add: fetchBegin_def example_env_def example_page_def)

text \<open>
  C7, amended. Every run of \<^verbatim>\<open>fetchAndBuildTree\<close> finishes, whatever the other
  handlers do to the page while it is suspended. The previous forest does not
  remain: the page the run leaves at its first suspension point is the page it
  was called on with the loading indicator shown, the tree element blank and
  \<^verbatim>\<open>currentFullTree\<close> empty. The run does not write the page between its first
  resumption and its second suspension point, so that \<^verbatim>\<open>currentFullTree\<close> is empty
  at both suspension points unless another handler has written it in between.
  When the run has finished, \<^verbatim>\<open>currentFullTree\<close> is empty or holds the whole new
  forest (the built forest after the optional collapsing), as stored or in the
  order in which rendering leaves it, and never a part of it; it is empty after
  an invalid date range, a failed history search or a search that returned
  nothing but the viewer's own page; and it holds the new forest when the search
  returned another page and every collected visit has its history item.
\<close>

theorem rebuild_clears_then_stores:
  assumes "distinct (map fst (collectedVisits env))"
  shows "\<exists>suspended final forest.
           fetchAndBuildTree toLowerCase env duringSearch duringVisits st = Some (suspended, final)
         \<and> treeBuildingPhase (collectedVisits env) = Some forest
         \<and> length suspended \<le> 2
         \<and> (0 < length suspended \<longrightarrow>
              suspended ! 0 = st\<lparr>loadingShown := True, historyTree := Blank, currentFullTree := []\<rparr>)
         \<and> (1 < length suspended \<longrightarrow> suspended ! 1 = duringSearch (suspended ! 0))
         \<and> ((\<forall>p. currentFullTree (duringSearch p) = currentFullTree p) \<longrightarrow>
              (\<forall>s \<in> set suspended. currentFullTree s = []))
         \<and> (currentFullTree final = []
            \<or> currentFullTree final = applyDuplicateFiltering (shouldFilterDuplicates env) forest
            \<or> currentFullTree final
                = renderOrder (applyDuplicateFiltering (shouldFilterDuplicates env) forest))
         \<and> (\<not> datesValid env \<or> isl (searchAnswer env)
              \<or> (\<exists>items. searchAnswer env = Inr items
                    \<and> filter (\<lambda>item. url item \<noteq> Some (historyPageUrl env)) items = [])
            \<longrightarrow> currentFullTree final = [])
         \<and> (datesValid env
              \<and> (\<exists>items. searchAnswer env = Inr items
                    \<and> filter (\<lambda>item. url item \<noteq> Some (historyPageUrl env)) items \<noteq> [])
              \<and> (\<forall>e \<in> set (collectedVisits env). historyItem (snd e) \<noteq> None)
            \<longrightarrow> currentFullTree final
                = (if toLowerCase (searchInput env) = []
                   then renderOrder (applyDuplicateFiltering (shouldFilterDuplicates env) forest)
                   else applyDuplicateFiltering (shouldFilterDuplicates env) forest))"
proof -
  let ?s1 = "st\<lparr>loadingShown := True, historyTree := Blank, currentFullTree := []\<rparr>"
  let ?run = "fetchAndBuildTree toLowerCase env duringSearch duringVisits st"
  obtain forest where forest: "treeBuildingPhase (collectedVisits env) = Some forest"
    using treeBuildingPhase_defined [OF assms] by blast
  let ?F = "applyDuplicateFiltering (shouldFilterDuplicates env) forest"
  show ?thesis
  proof (cases "datesValid env")
    case False
    then have "?run = Some ([], ?s1\<lparr>historyTree := Notice InvalidDateRange, loadingShown := False\<rparr>)"
      by (simp add: fetchAndBuildTree_def fetchBegin_def Let_def)
    then show ?thesis using forest False by simp
  next
    case True
    then have b: "fetchBegin env st = Awaiting ?s1"
      by (simp add: fetchBegin_def Let_def)
    show ?thesis
    proof (cases "fetchAfterSearch toLowerCase env (duringSearch ?s1)")
      case (Finished final)
      then have run: "?run = Some ([?s1], final)"
        by (simp add: fetchAndBuildTree_def b)
      have empty: "currentFullTree final = []"
        using fetchAfterSearch_Finished(1) [OF Finished] .
      have why: "isl (searchAnswer env)
         \<or> (\<exists>items. searchAnswer env = Inr items
              \<and> filter (\<lambda>item. url item \<noteq> Some (historyPageUrl env)) items = [])"
        using fetchAfterSearch_Finished(2) [OF Finished] .
      then have no: "\<not> (\<exists>items. searchAnswer env = Inr items
              \<and> filter (\<lambda>item. url item \<noteq> Some (historyPageUrl env)) items \<noteq> [])"
        by auto
      have p1: "length [?s1] \<le> 2" by simp
      have p2: "0 < length [?s1] \<longrightarrow> [?s1] ! 0 = ?s1" by simp
      have p3: "1 < length [?s1] \<longrightarrow> [?s1] ! 1 = duringSearch ([?s1] ! 0)" by simp
      have p4: "(\<forall>p. currentFullTree (duringSearch p) = currentFullTree p) \<longrightarrow>
              (\<forall>s \<in> set [?s1]. currentFullTree s = [])"
        by simp
      have p5: "currentFullTree final = []
            \<or> currentFullTree final = ?F \<or> currentFullTree final = renderOrder ?F"
        using empty by simp
      have p6: "\<not> datesValid env \<or> isl (searchAnswer env)
              \<or> (\<exists>items. searchAnswer env = Inr items
                    \<and> filter (\<lambda>item. url item \<noteq> Some (historyPageUrl env)) items = [])
            \<longrightarrow> currentFullTree final = []"
        using empty by simp
      have p7: "datesValid env
              \<and> (\<exists>items. searchAnswer env = Inr items
                    \<and> filter (\<lambda>item. url item \<noteq> Some (historyPageUrl env)) items \<noteq> [])
              \<and> (\<forall>e \<in> set (collectedVisits env). historyItem (snd e) \<noteq> None)
            \<longrightarrow> currentFullTree final
                = (if toLowerCase (searchInput env) = [] then renderOrder ?F else ?F)"
        using no by blast
      show ?thesis
        by (intro exI [of _ "[?s1]"] exI [of _ final] exI [of _ forest] conjI)
          (fact run forest p1 p2 p3 p4 p5 p6 p7)+
    next
      case (Awaiting s2)
      have s2: "s2 = duringSearch ?s1"
        using fetchAfterSearch_Awaiting(1) [OF Awaiting] .
      have some: "\<exists>items. searchAnswer env = Inr items
              \<and> filter (\<lambda>item. url item \<noteq> Some (historyPageUrl env)) items \<noteq> []"
        using fetchAfterSearch_Awaiting(2) [OF Awaiting] .
      then have ok: "\<not> isl (searchAnswer env)"
        and nonempty: "\<not> (\<exists>items. searchAnswer env = Inr items
              \<and> filter (\<lambda>item. url item \<noteq> Some (historyPageUrl env)) items = [])"
        by auto
      let ?p = "(duringVisits s2)\<lparr>currentFullTree := ?F\<rparr>"
      let ?final = "renderOrCatch toLowerCase (searchInput env) ?p"
      have run: "?run = Some ([?s1, s2], ?final)"
        using Awaiting by (simp add: fetchAndBuildTree_def b fetchAfterVisits_def forest)
      have any: "currentFullTree ?final = [] \<or> currentFullTree ?final = ?F
            \<or> currentFullTree ?final = renderOrder ?F"
        using renderOrCatch_slot [of toLowerCase "searchInput env" ?p] by simp
      have good: "currentFullTree ?final
                = (if toLowerCase (searchInput env) = [] then renderOrder ?F else ?F)"
        if "\<forall>e \<in> set (collectedVisits env). historyItem (snd e) \<noteq> None"
      proof -
        have "list_all has_payload (forest_nodes ?F)"
          using treeBuildingPhase_payload [OF assms that forest]
          by (rule applyDuplicateFiltering_payload)
        then show ?thesis
          using renderOrCatch_success [of ?p toLowerCase "searchInput env"] by simp
      qed
      have q1: "length [?s1, s2] \<le> 2" by simp
      have q2: "0 < length [?s1, s2] \<longrightarrow> [?s1, s2] ! 0 = ?s1" by simp
      have q3: "1 < length [?s1, s2] \<longrightarrow> [?s1, s2] ! 1 = duringSearch ([?s1, s2] ! 0)"
        by (simp add: s2)
      have q4: "(\<forall>p. currentFullTree (duringSearch p) = currentFullTree p) \<longrightarrow>
              (\<forall>s \<in> set [?s1, s2]. currentFullTree s = [])"
        by (simp add: s2)
      have q6: "\<not> datesValid env \<or> isl (searchAnswer env)
              \<or> (\<exists>items. searchAnswer env = Inr items
                    \<and> filter (\<lambda>item. url item \<noteq> Some (historyPageUrl env)) items = [])
            \<longrightarrow> currentFullTree ?final = []"
        using True ok nonempty by blast
      have q7: "datesValid env
              \<and> (\<exists>items. searchAnswer env = Inr items
                    \<and> filter (\<lambda>item. url item \<noteq> Some (historyPageUrl env)) items \<noteq> [])
              \<and> (\<forall>e \<in> set (collectedVisits env). historyItem (snd e) \<noteq> None)
            \<longrightarrow> currentFullTree ?final
                = (if toLowerCase (searchInput env) = [] then renderOrder ?F else ?F)"
        using good by blast
      show ?thesis
        by (intro exI [of _ "[?s1, s2]"] exI [of _ ?final] exI [of _ forest] conjI)
          (fact run forest q1 q2 q3 q4 any q6 q7)+
    qed
  qed
qed

text \<open>
  The run of the example that nothing interrupts: both suspension points show an
  empty \<^verbatim>\<open>currentFullTree\<close>, and the finished run has stored the forest of the
  three visits in render order.
\<close>

theorem rebuild_clears_then_stores_witness:
  "distinct (map fst (collectedVisits example_env))
   \<and> fetchAndBuildTree lowerLatin1 example_env id id example_page
      = Some ([\<lparr>currentFullTree = [], historyTree = Blank, loadingShown = True\<rparr>,
            \<lparr>currentFullTree = [], historyTree = Blank, loadingShown = True\<rparr>],
           \<lparr>currentFullTree =
               [Node 1 (Some (pageVisit 1 0 ''a'' ''A'' 100))
                 [Node 3 (Some (pageVisit 3 1 ''c'' ''C'' 150)) [],
                  Node 2 (Some (pageVisit 2 1 ''b'' ''B'' 200)) []]],
             historyTree = TreeView
               [Node 1 (Some (pageVisit 1 0 ''a'' ''A'' 100))
                 [Node 3 (Some (pageVisit 3 1 ''c'' ''C'' 150)) [],
                  Node 2 (Some (pageVisit 2 1 ''b'' ''B'' 200)) []]],
             loadingShown = False\<rparr>)
   \<and> renderOrder (applyDuplicateFiltering (shouldFilterDuplicates example_env)
        [Node 1 (Some (pageVisit 1 0 ''a'' ''A'' 100))
          [Node 2 (Some (pageVisit 2 1 ''b'' ''B'' 200)) [],
           Node 3 (Some (pageVisit 3 1 ''c'' ''C'' 150)) []]])
      = [Node 1 (Some (pageVisit 1 0 ''a'' ''A'' 100))
          [Node 3 (Some (pageVisit 3 1 ''c'' ''C'' 150)) [],
           Node 2 (Some (pageVisit 2 1 ''b'' ''B'' 200)) []]]"
proof -
  have h: "distinct (map fst (collectedVisits example_env))"
    by (simp add: example_env_def example_visits_def)
  have env: "datesValid example_env"
    "\<exists>items. searchAnswer example_env = Inr items
        \<and> filter (\<lambda>item. url item \<noteq> Some (historyPageUrl example_env)) items \<noteq> []"
    "\<forall>e \<in> set (collectedVisits example_env). historyItem (snd e) \<noteq> None"
    "lowerLatin1 (searchInput example_env) = []"
    "collectedVisits example_env = example_visits"
    by (simp_all add: example_env_def example_visits_def pageVisit_def lowerLatin1_def)
  obtain suspended final forest where
    r: "fetchAndBuildTree lowerLatin1 example_env id id example_page
        = Some (suspended, final)"
    and f: "treeBuildingPhase (collectedVisits example_env) = Some forest"
    and s: "currentFullTree final
                = (if lowerLatin1 (searchInput example_env) = []
                   then renderOrder (applyDuplicateFiltering (shouldFilterDuplicates example_env) forest)
                   else applyDuplicateFiltering (shouldFilterDuplicates example_env) forest)"
    using rebuild_clears_then_stores [OF h, of lowerLatin1 id id example_page] env(1,2,3)
    by blast
  have "forest = [Node 1 (Some (pageVisit 1 0 ''a'' ''A'' 100))
          [Node 2 (Some (pageVisit 2 1 ''b'' ''B'' 200)) [],
           Node 3 (Some (pageVisit 3 1 ''c'' ''C'' 150)) []]]"
    using f by (simp only: env(5) example_visits_forest option.inject)
  moreover have "currentFullTree final
      = [Node 1 (Some (pageVisit 1 0 ''a'' ''A'' 100))
          [Node 3 (Some (pageVisit 3 1 ''c'' ''C'' 150)) [],
           Node 2 (Some (pageVisit 2 1 ''b'' ''B'' 200)) []]]"
    using r by (auto simp: example_rebuild)
  ultimately have "renderOrder (applyDuplicateFiltering (shouldFilterDuplicates example_env)
        [Node 1 (Some (pageVisit 1 0 ''a'' ''A'' 100))
          [Node 2 (Some (pageVisit 2 1 ''b'' ''B'' 200)) [],
           Node 3 (Some (pageVisit 3 1 ''c'' ''C'' 150)) []]])
      = [Node 1 (Some (pageVisit 1 0 ''a'' ''A'' 100))
          [Node 3 (Some (pageVisit 3 1 ''c'' ''C'' 150)) [],
           Node 2 (Some (pageVisit 2 1 ''b'' ''B'' 200)) []]]"
    using s env(4) by simp
  with h example_rebuild show ?thesis by blast
qed
section \<open>Search projector on the object heap\<close>

text \<open>
  Whether a projection shares an object with the forest it was made from is a
  question about references. For it the objects live in a heap: a node object
  holds its id, a reference to its payload object (or none) and a reference to its
  children array; an array holds references to node objects; a payload object
  holds the \<^verbatim>\<open>{ visitData, historyItem }\<close> record. Objects are allocated at the
  addresses \<open>lim\<close>, \<open>lim + 1\<close>, ... in turn.
\<close>

type_synonym addr = nat

datatype obj =
  NodeObj visit_id "addr option" addr
  | ArrayObj "addr list"
  | DataObj node_data

record heap =
  cells :: "addr \<rightharpoonup> obj"
  lim :: addr

text \<open>
  A run of the model has no result when the recursion is deeper than the fuel it
  was given, or when a reference does not lead to an object of the kind the
  code expects there.
\<close>

datatype herror = OutOfFuel | BadReference

text \<open>An object or array literal allocates a new object.\<close>

definition alloc :: "obj \<Rightarrow> heap \<Rightarrow> addr \<times> heap" where
  "alloc v h = (lim h, h\<lparr>cells := (cells h)(lim h \<mapsto> v), lim := Suc (lim h)\<rparr>)"

text \<open>\<^verbatim>\<open>array.push(x)\<close> writes the array object in place.\<close>

definition push :: "addr \<Rightarrow> addr \<Rightarrow> heap \<Rightarrow> herror + heap" where
  "push array x h =
     (case cells h array of
        Some (ArrayObj xs) \<Rightarrow> Inr (h\<lparr>cells := (cells h)(array \<mapsto> ArrayObj (xs @ [x]))\<rparr>)
      | _ \<Rightarrow> Inl BadReference)"

text \<open>
  \<^verbatim>\<open>node.data\<close> and \<^verbatim>\<open>node.data.historyItem\<close> as read by the integrity check: \<open>None\<close>
  when the node has no payload or the payload no history item.
\<close>

definition readItem :: "heap \<Rightarrow> addr option \<Rightarrow> herror + history_item option" where
  "readItem h d =
     (case d of
        None \<Rightarrow> Inr None
      | Some da \<Rightarrow>
          (case cells h da of
             Some (DataObj dat) \<Rightarrow> Inr (historyItem dat)
           | _ \<Rightarrow> Inl BadReference))"

text \<open>
  The loop \<^verbatim>\<open>for (const node of nodes)\<close> of \<^verbatim>\<open>filterAndCloneTree\<close>, over the elements of
  the array \<^verbatim>\<open>nodes\<close>; the loop writes only objects it has allocated, never that
  array. \<open>recur\<close> is the recursive call. The clone \<^verbatim>\<open>{ ...node, children: filteredChildren }\<close>
  is a new node object with the id and the payload reference of \<^verbatim>\<open>node\<close>.
\<close>

fun filterLoopH ::
  "(js_string \<Rightarrow> js_string) \<Rightarrow> (addr \<Rightarrow> heap \<Rightarrow> herror + (addr \<times> heap)) \<Rightarrow> js_string
   \<Rightarrow> addr list \<Rightarrow> addr \<Rightarrow> heap \<Rightarrow> herror + heap" where
  "filterLoopH toLowerCase recur searchTextLower [] filteredNodes h = Inr h"
| "filterLoopH toLowerCase recur searchTextLower (node # rest) filteredNodes h =
     (case cells h node of
        Some (NodeObj i d cs) \<Rightarrow>
          (case readItem h d of
             Inl e \<Rightarrow> Inl e
           | Inr None \<Rightarrow> filterLoopH toLowerCase recur searchTextLower rest filteredNodes h
           | Inr (Some item) \<Rightarrow>
               (let nodeMatches =
                      (str_includes (toLowerCase (orEmpty (title item))) searchTextLower
                       \<or> str_includes (toLowerCase (orEmpty (url item))) searchTextLower)
                in case recur cs h of
                     Inl e \<Rightarrow> Inl e
                   | Inr (filteredChildren, h1) \<Rightarrow>
                       (case cells h1 filteredChildren of
                          Some (ArrayObj kept) \<Rightarrow>
                            if nodeMatches \<or> length kept > 0
                            then
                              (case alloc (NodeObj i d filteredChildren) h1 of
                                 (clonedNode, h2) \<Rightarrow>
                                   (case push filteredNodes clonedNode h2 of
                                      Inl e \<Rightarrow> Inl e
                                    | Inr h3 \<Rightarrow>
                                        filterLoopH toLowerCase recur searchTextLower rest
                                          filteredNodes h3))
                            else filterLoopH toLowerCase recur searchTextLower rest filteredNodes h1
                        | _ \<Rightarrow> Inl BadReference)))
      | _ \<Rightarrow> Inl BadReference)"

text \<open>
  \<^verbatim>\<open>filterAndCloneTree(nodes, searchTextLower)\<close> on the heap; \<^verbatim>\<open>const filteredNodes = []\<close>
  allocates the result array. As in the function on trees, \<open>toLowerCase\<close> is
  the built-in of the engine.
\<close>

primrec filterAndCloneTreeH ::
  "(js_string \<Rightarrow> js_string) \<Rightarrow> nat \<Rightarrow> js_string \<Rightarrow> addr \<Rightarrow> heap
   \<Rightarrow> herror + (addr \<times> heap)" where
  "filterAndCloneTreeH toLowerCase 0 searchTextLower nodes h = Inl OutOfFuel"
| "filterAndCloneTreeH toLowerCase (Suc fuel) searchTextLower nodes h =
     (if searchTextLower = [] then Inr (nodes, h)
      else
        (case cells h nodes of
           Some (ArrayObj refs) \<Rightarrow>
             (case alloc (ArrayObj []) h of
                (filteredNodes, h1) \<Rightarrow>
                  (case filterLoopH toLowerCase (filterAndCloneTreeH toLowerCase fuel searchTextLower)
                          searchTextLower
                          refs filteredNodes h1 of
                     Inl e \<Rightarrow> Inl e
                   | Inr h2 \<Rightarrow> Inr (filteredNodes, h2)))
         | _ \<Rightarrow> Inl BadReference))"

text \<open>
  The references an object holds to arrays and node objects (the payload
  reference of a node object is not among them: a clone shares it on purpose).
\<close>

fun refs_of :: "obj \<Rightarrow> addr set" where
  "refs_of (NodeObj i d cs) = {cs}"
| "refs_of (ArrayObj xs) = set xs"
| "refs_of (DataObj dat) = {}"

text \<open>A heap is in order when its objects and the references they hold lie below \<open>lim\<close>.\<close>

definition heap_ok :: "heap \<Rightarrow> bool" where
  "heap_ok h \<longleftrightarrow>
     (\<forall>a obj. cells h a = Some obj \<longrightarrow> a < lim h \<and> (\<forall>x \<in> refs_of obj. x < lim h))"

text \<open>The arrays and node objects that are reached from the reference \<open>r\<close>.\<close>

inductive_set reach :: "heap \<Rightarrow> addr \<Rightarrow> addr set" for h :: heap and r :: addr where
  start: "r \<in> reach h r"
| step: "a \<in> reach h r \<Longrightarrow> cells h a = Some obj \<Longrightarrow> x \<in> refs_of obj \<Longrightarrow> x \<in> reach h r"

text \<open>
  A root array with two roots; the first root has one child. The objects are, in
  order of their addresses: the root array, root 1 with payload and children
  array, its child 2 with payload and children array, root 3 with payload and
  children array.
\<close>

definition example_heap :: heap where
  "example_heap =
     \<lparr>cells = [0 \<mapsto> ArrayObj [1, 7],
               1 \<mapsto> NodeObj 1 (Some 2) 3,
               2 \<mapsto> DataObj (pageVisit 1 0 ''https://example.org/'' ''News'' 100),
               3 \<mapsto> ArrayObj [4],
               4 \<mapsto> NodeObj 2 (Some 5) 6,
               5 \<mapsto> DataObj (pageVisit 2 1 ''https://isabelle.in.tum.de/'' ''Isabelle'' 200),
               6 \<mapsto> ArrayObj [],
               7 \<mapsto> NodeObj 3 (Some 8) 9,
               8 \<mapsto> DataObj (pageVisit 3 0 ''https://example.org/a'' ''Other'' 150),
               9 \<mapsto> ArrayObj []],
      lim = 10\<rparr>"

text \<open>
  When a reference denotes a tree. \<open>repr_node h S a n\<close>: in the heap \<open>h\<close> the node object
  at \<open>a\<close> has the id of \<open>n\<close>, its payload reference leads to the payload of \<open>n\<close>
  (or is absent as the payload of \<open>n\<close> is), and its children array lists
  references that denote the children of \<open>n\<close>, in order; all addresses met on the
  way lie in \<open>S\<close>. \<open>repr_forest h S a ns\<close>: the array at \<open>a\<close> lists references that
  denote the nodes \<open>ns\<close>.
\<close>

definition repr_data :: "heap \<Rightarrow> addr set \<Rightarrow> addr option \<Rightarrow> node_data option \<Rightarrow> bool" where
  "repr_data h S da d =
     (case da of
        None \<Rightarrow> d = None
      | Some p \<Rightarrow> p \<in> S \<and> (\<exists>dat. cells h p = Some (DataObj dat) \<and> d = Some dat))"

fun repr_node :: "heap \<Rightarrow> addr set \<Rightarrow> addr \<Rightarrow> node \<Rightarrow> bool"
  and repr_nodes :: "heap \<Rightarrow> addr set \<Rightarrow> addr list \<Rightarrow> node list \<Rightarrow> bool" where
  "repr_node h S a (Node i d cs) =
     (a \<in> S \<and>
      (\<exists>da ca refs. cells h a = Some (NodeObj i da ca) \<and> repr_data h S da d \<and> ca \<in> S
         \<and> cells h ca = Some (ArrayObj refs) \<and> repr_nodes h S refs cs))"
| "repr_nodes h S [] [] = True"
| "repr_nodes h S (a # as) (n # ns) = (repr_node h S a n \<and> repr_nodes h S as ns)"
| "repr_nodes h S [] (n # ns) = False"
| "repr_nodes h S (a # as) [] = False"

definition repr_forest :: "heap \<Rightarrow> addr set \<Rightarrow> addr \<Rightarrow> node list \<Rightarrow> bool" where
  "repr_forest h S a ns =
     (a \<in> S \<and> (\<exists>refs. cells h a = Some (ArrayObj refs) \<and> repr_nodes h S refs ns))"

text \<open>The number of levels of a tree and of a forest.\<close>

fun depth :: "node \<Rightarrow> nat" where
  "depth (Node i d cs) = Suc (foldr (\<lambda>c m. max (depth c) m) cs 0)"

definition forest_depth :: "node list \<Rightarrow> nat" where
  "forest_depth ns = foldr (\<lambda>c m. max (depth c) m) ns 0"

text \<open>The forest that the root array of \<open>example_heap\<close> denotes.\<close>

definition example_heap_forest :: "node list" where
  "example_heap_forest =
     [Node 1 (Some (pageVisit 1 0 ''https://example.org/'' ''News'' 100))
        [Node 2 (Some (pageVisit 2 1 ''https://isabelle.in.tum.de/'' ''Isabelle'' 200)) []],
      Node 3 (Some (pageVisit 3 0 ''https://example.org/a'' ''Other'' 150)) []]"

subsection \<open>Search projector on the object heap: properties\<close>

text \<open>
  \<open>frame h h'\<close>: the run from \<open>h\<close> to \<open>h'\<close> has written no object of \<open>h\<close>.
  \<open>good h0 h\<close>: the heap \<open>h\<close> of a run that started in \<open>h0\<close> has all its objects below
  \<open>lim\<close>, has the objects of \<open>h0\<close> as they were, and each of its new objects refers
  to new objects only and, when it is a node object, has the id and the payload
  reference of a node object of \<open>h0\<close>.
\<close>

definition frame :: "heap \<Rightarrow> heap \<Rightarrow> bool" where
  "frame h h' \<longleftrightarrow> lim h \<le> lim h' \<and> (\<forall>a. a < lim h \<longrightarrow> cells h' a = cells h a)"

definition is_array :: "heap \<Rightarrow> addr \<Rightarrow> bool" where
  "is_array h a \<longleftrightarrow> (\<exists>xs. cells h a = Some (ArrayObj xs))"

definition good :: "heap \<Rightarrow> heap \<Rightarrow> bool" where
  "good h0 h \<longleftrightarrow>
     (\<forall>a. cells h a \<noteq> None \<longrightarrow> a < lim h)
     \<and> frame h0 h
     \<and> (\<forall>a obj. lim h0 \<le> a \<longrightarrow> cells h a = Some obj \<longrightarrow> (\<forall>x \<in> refs_of obj. lim h0 \<le> x))
     \<and> (\<forall>a i d cs. lim h0 \<le> a \<longrightarrow> cells h a = Some (NodeObj i d cs) \<longrightarrow>
           (\<exists>b cs0. b < lim h0 \<and> cells h0 b = Some (NodeObj i d cs0)))"

lemma frame_refl [simp]: "frame h h"
  by (simp add: frame_def)

lemma frame_trans: "frame a b \<Longrightarrow> frame b c \<Longrightarrow> frame a c"
  by (auto simp: frame_def)

lemma good_start: "heap_ok h \<Longrightarrow> good h h"
  unfolding good_def heap_ok_def by (simp add: not_le [symmetric]) blast

lemma good_alloc:
  assumes "good h0 h"
    and "\<forall>x \<in> refs_of v. lim h0 \<le> x"
    and "\<And>i d cs. v = NodeObj i d cs \<Longrightarrow> \<exists>b cs0. b < lim h0 \<and> cells h0 b = Some (NodeObj i d cs0)"
    and "alloc v h = (c, h2)"
  shows "good h0 h2" and "c = lim h" and "lim h2 = Suc (lim h)" and "cells h2 = (cells h)(lim h \<mapsto> v)"
    and "frame h h2"
proof -
  have h2: "h2 = h\<lparr>cells := (cells h)(lim h \<mapsto> v), lim := Suc (lim h)\<rparr>" and c: "c = lim h"
    using assms(4) by (auto simp: alloc_def)
  show "c = lim h" by (rule c)
  show "lim h2 = Suc (lim h)" by (simp add: h2)
  show "cells h2 = (cells h)(lim h \<mapsto> v)" by (simp add: h2)
  have L: "lim h0 \<le> lim h" using assms(1) by (simp add: good_def frame_def)
  show "frame h h2" by (simp add: h2 frame_def)
  show "good h0 h2"
    unfolding good_def
  proof (intro conjI allI impI)
    fix a assume "cells h2 a \<noteq> None"
    then show "a < lim h2" using assms(1) by (auto simp: h2 good_def less_Suc_eq split: if_splits)
  next
    show "frame h0 h2" using assms(1) L by (auto simp: h2 good_def frame_def)
  next
    fix a obj assume "lim h0 \<le> a" "cells h2 a = Some obj"
    then show "\<forall>x \<in> refs_of obj. lim h0 \<le> x"
      using assms(1,2) by (auto simp: h2 good_def split: if_splits)
  next
    fix a i d cs assume "lim h0 \<le> a" "cells h2 a = Some (NodeObj i d cs)"
    then show "\<exists>b cs0. b < lim h0 \<and> cells h0 b = Some (NodeObj i d cs0)"
      using assms(1) assms(3) [of i d cs] by (auto simp: h2 good_def split: if_splits)
  qed
qed

lemma good_push:
  assumes "good h0 h" and "lim h0 \<le> fN" and "lim h0 \<le> c" and "push fN c h = Inr h3"
  shows "good h0 h3" and "lim h3 = lim h" and "\<forall>a. a \<noteq> fN \<longrightarrow> cells h3 a = cells h a"
    and "is_array h3 fN"
proof -
  obtain xs where xs: "cells h fN = Some (ArrayObj xs)"
    and h3: "h3 = h\<lparr>cells := (cells h)(fN \<mapsto> ArrayObj (xs @ [c]))\<rparr>"
    using assms(4) by (auto simp: push_def split: option.splits obj.splits)
  show "lim h3 = lim h" by (simp add: h3)
  show "\<forall>a. a \<noteq> fN \<longrightarrow> cells h3 a = cells h a" by (simp add: h3)
  show "is_array h3 fN" by (simp add: h3 is_array_def)
  have old: "\<forall>x \<in> set xs. lim h0 \<le> x"
    using assms(1,2) xs by (auto simp: good_def)
  show "good h0 h3"
    unfolding good_def
  proof (intro conjI allI impI)
    fix a assume "cells h3 a \<noteq> None"
    then show "a < lim h3" using assms(1) xs by (auto simp: h3 good_def split: if_splits)
  next
    show "frame h0 h3" using assms(1,2) by (auto simp: h3 good_def frame_def)
  next
    fix a obj assume "lim h0 \<le> a" "cells h3 a = Some obj"
    then show "\<forall>x \<in> refs_of obj. lim h0 \<le> x"
      using assms(1,3) old by (auto simp: h3 good_def split: if_splits)
  next
    fix a i d cs assume "lim h0 \<le> a" "cells h3 a = Some (NodeObj i d cs)"
    then show "\<exists>b cs0. b < lim h0 \<and> cells h0 b = Some (NodeObj i d cs0)"
      using assms(1) by (auto simp: h3 good_def split: if_splits)
  qed
qed


lemma filterLoopH_good:
  assumes ok: "heap_ok h0"
    and rec: "\<And>nodes h r h'. good h0 h \<Longrightarrow> nodes < lim h0 \<Longrightarrow> recur nodes h = Inr (r, h') \<Longrightarrow>
                good h0 h' \<and> frame h h' \<and> lim h \<le> r \<and> is_array h' r"
  shows "good h0 h \<Longrightarrow> \<forall>x \<in> set refs. x < lim h0 \<Longrightarrow> lim h0 \<le> fN \<Longrightarrow> fN < lim h \<Longrightarrow>
         is_array h fN \<Longrightarrow> filterLoopH lc recur q refs fN h = Inr h' \<Longrightarrow>
         good h0 h' \<and> lim h \<le> lim h'
         \<and> (\<forall>a. a < lim h \<longrightarrow> a \<noteq> fN \<longrightarrow> cells h' a = cells h a) \<and> is_array h' fN"
proof (induction refs arbitrary: h)
  case Nil
  then show ?case by simp
next
  case (Cons node rest)
  note g = Cons.prems(1) and fN = Cons.prems(3,4,5) and run = Cons.prems(6)
  have rest: "\<forall>x \<in> set rest. x < lim h0" and nodeL: "node < lim h0" using Cons.prems(2) by auto
  from run obtain i d cs where node: "cells h node = Some (NodeObj i d cs)"
    by (auto split: option.splits obj.splits)
  have node0: "cells h0 node = Some (NodeObj i d cs)"
    using g nodeL node by (auto simp: good_def frame_def)
  then have csL: "cs < lim h0" using ok by (auto simp: heap_ok_def)
  from run node obtain it where it: "readItem h d = Inr it"
    by (auto split: sum.splits)
  show ?case
  proof (cases it)
    case None
    then have "filterLoopH lc recur q rest fN h = Inr h'" using run node it by simp
    then show ?thesis using Cons.IH [OF g rest fN] by simp
  next
    case (Some item)
    from run node it Some obtain fc h1 where r: "recur cs h = Inr (fc, h1)"
      by (auto simp: Let_def split: sum.splits)
    from rec [OF g csL r] have g1: "good h0 h1" and f1: "frame h h1" and fcL: "lim h \<le> fc"
      and arr: "is_array h1 fc" by auto
    obtain kept where kept: "cells h1 fc = Some (ArrayObj kept)" using arr by (auto simp: is_array_def)
    have L: "lim h0 \<le> lim h" using g by (simp add: good_def frame_def)
    have fN1: "fN < lim h1" "is_array h1 fN"
      using f1 fN by (auto simp: frame_def is_array_def)
    define keep where "keep \<longleftrightarrow>
        (str_includes (lc (orEmpty (title item))) q
         \<or> str_includes (lc (orEmpty (url item))) q) \<or> length kept > 0"
    show ?thesis
    proof (cases keep)
      case False
      then have "filterLoopH lc recur q rest fN h1 = Inr h'"
        using run node it Some r kept by (simp add: keep_def Let_def)
      then have "good h0 h' \<and> lim h1 \<le> lim h'
         \<and> (\<forall>a. a < lim h1 \<longrightarrow> a \<noteq> fN \<longrightarrow> cells h' a = cells h1 a) \<and> is_array h' fN"
        using Cons.IH [OF g1 rest fN(1) fN1] by simp
      then show ?thesis using f1 by (auto simp: frame_def)
    next
      case True
      obtain c h2 where al: "alloc (NodeObj i d fc) h1 = (c, h2)" by (cases "alloc (NodeObj i d fc) h1")
      have g2: "good h0 h2" and c: "c = lim h1" and l2: "lim h2 = Suc (lim h1)"
        and c2: "cells h2 = (cells h1)(lim h1 \<mapsto> NodeObj i d fc)"
        using good_alloc [OF g1 _ _ al] fcL L nodeL node0 by auto
      from run node it Some r kept True al obtain h3 where
        p: "push fN c h2 = Inr h3" and loop: "filterLoopH lc recur q rest fN h3 = Inr h'"
        by (auto simp: keep_def Let_def split: sum.splits)
      have cL: "lim h0 \<le> c" using c f1 L by (simp add: frame_def)
      have g3: "good h0 h3" and l3: "lim h3 = lim h2"
        and c3: "\<forall>a. a \<noteq> fN \<longrightarrow> cells h3 a = cells h2 a" and a3: "is_array h3 fN"
        using good_push [OF g2 fN(1) cL p] by auto
      have fN3: "fN < lim h3" using fN1(1) l3 l2 by simp
      have "good h0 h' \<and> lim h3 \<le> lim h'
         \<and> (\<forall>a. a < lim h3 \<longrightarrow> a \<noteq> fN \<longrightarrow> cells h' a = cells h3 a) \<and> is_array h' fN"
        using Cons.IH [OF g3 rest fN(1) fN3 a3 loop] .
      then show ?thesis using f1 l3 l2 c3 c2 by (auto simp: frame_def)
    qed
  qed
qed

lemma filterAndCloneTreeH_good:
  assumes ok: "heap_ok h0" and q: "q \<noteq> []"
  shows "good h0 h \<Longrightarrow> nodes < lim h0 \<Longrightarrow> filterAndCloneTreeH lc fuel q nodes h = Inr (r, h') \<Longrightarrow>
         good h0 h' \<and> frame h h' \<and> lim h \<le> r \<and> is_array h' r"
proof (induction fuel arbitrary: nodes h r h')
  case 0
  then show ?case by simp
next
  case (Suc fuel)
  note g = Suc.prems(1) and run = Suc.prems(3)
  from run q obtain refs where refs: "cells h nodes = Some (ArrayObj refs)"
    by (auto split: option.splits obj.splits)
  have "cells h0 nodes = Some (ArrayObj refs)"
    using g Suc.prems(2) refs by (auto simp: good_def frame_def)
  then have refsL: "\<forall>x \<in> set refs. x < lim h0" using ok by (auto simp: heap_ok_def)
  obtain fN h1 where al: "alloc (ArrayObj []) h = (fN, h1)" by (cases "alloc (ArrayObj []) h")
  have L: "lim h0 \<le> lim h" using g by (simp add: good_def frame_def)
  have g1: "good h0 h1" and fN: "fN = lim h" and l1: "lim h1 = Suc (lim h)"
    and c1: "cells h1 = (cells h)(lim h \<mapsto> ArrayObj [])" and f1: "frame h h1"
    using good_alloc [OF g _ _ al] by auto
  from run q refs al obtain h2 where
    loop: "filterLoopH lc (filterAndCloneTreeH lc fuel q) q refs fN h1 = Inr h2" and res: "r = fN" "h' = h2"
    by (auto split: sum.splits)
  have "good h0 h2 \<and> lim h1 \<le> lim h2
         \<and> (\<forall>a. a < lim h1 \<longrightarrow> a \<noteq> fN \<longrightarrow> cells h2 a = cells h1 a) \<and> is_array h2 fN"
  proof (rule filterLoopH_good [OF ok _ g1 refsL _ _ _ loop])
    show "lim h0 \<le> fN" using fN L by simp
    show "fN < lim h1" using fN l1 by simp
    show "is_array h1 fN" using fN c1 by (simp add: is_array_def)
    show "\<And>nodes h r h'. good h0 h \<Longrightarrow> nodes < lim h0 \<Longrightarrow> filterAndCloneTreeH lc fuel q nodes h = Inr (r, h') \<Longrightarrow>
            good h0 h' \<and> frame h h' \<and> lim h \<le> r \<and> is_array h' r"
      using Suc.IH by blast
  qed
  then show ?case using res fN l1 c1 by (auto simp: frame_def)
qed


lemma reach_fresh:
  assumes "good h0 h'" and "lim h0 \<le> r"
  shows "a \<in> reach h' r \<Longrightarrow> lim h0 \<le> a"
proof (induction rule: reach.induct)
  case start
  show ?case by (rule assms(2))
next
  case (step a obj x)
  then show ?case using assms(1) by (auto simp: good_def)
qed

lemma example_heap_lower:
  "\<not> str_includes (lowerLatin1 (str ''News'')) (str ''isabelle'')"
  "str_includes (lowerLatin1 (str ''Isabelle'')) (str ''isabelle'')"
  "\<not> str_includes (lowerLatin1 (str ''Other'')) (str ''isabelle'')"
  "\<not> str_includes (lowerLatin1 (str ''https://example.org/'')) (str ''isabelle'')"
  "\<not> str_includes (lowerLatin1 (str ''https://example.org/a'')) (str ''isabelle'')"
  by code_simp+

lemma example_heap_ok: "heap_ok example_heap"
  by (auto simp: heap_ok_def example_heap_def split: if_splits)

lemma example_heap_projection:
  "\<exists>h'. filterAndCloneTreeH lowerLatin1 3 (str ''isabelle'') 0 example_heap = Inr (10, h')
      \<and> cells h' 10 = Some (ArrayObj [14])
      \<and> cells h' 14 = Some (NodeObj 1 (Some 2) 11) \<and> cells h' 11 = Some (ArrayObj [13])
      \<and> cells h' 13 = Some (NodeObj 2 (Some 5) 12) \<and> cells h' 12 = Some (ArrayObj [])
      \<and> cells h' 0 = Some (ArrayObj [1, 7]) \<and> cells h' 1 = Some (NodeObj 1 (Some 2) 3)"
  by (simp add: example_heap_def alloc_def push_def readItem_def pageVisit_def Let_def numeral_3_eq_3
     orEmpty_def example_heap_lower)

lemma filterAndCloneTreeH_frame:
  assumes ok: "heap_ok h" and q: "q \<noteq> []"
    and run: "filterAndCloneTreeH lc fuel q nodes h = Inr (r, h')"
  shows "(\<forall>a obj. cells h a = Some obj \<longrightarrow> cells h' a = Some obj)
       \<and> reach h' r \<inter> dom (cells h) = {}
       \<and> (\<forall>a i d cs. a \<in> reach h' r \<longrightarrow> cells h' a = Some (NodeObj i d cs) \<longrightarrow>
             (\<exists>b cs0. cells h b = Some (NodeObj i d cs0)))"
proof -
  from run q obtain refs where "cells h nodes = Some (ArrayObj refs)"
    by (cases fuel) (auto split: option.splits obj.splits)
  then have "nodes < lim h" using ok by (auto simp: heap_ok_def)
  then have g: "good h h'" and f: "frame h h'" and r: "lim h \<le> r"
    using filterAndCloneTreeH_good [OF ok q good_start [OF ok] _ run] by auto
  have fresh: "lim h \<le> a" if "a \<in> reach h' r" for a
    using reach_fresh [OF g r that] .
  have below: "a < lim h" if "cells h a = Some obj" for a obj
    using ok that by (auto simp: heap_ok_def)
  have a: "\<forall>a obj. cells h a = Some obj \<longrightarrow> cells h' a = Some obj"
    using f below by (auto simp: frame_def)
  have b: "reach h' r \<inter> dom (cells h) = {}"
    using fresh below by fastforce
  have c: "\<forall>a i d cs. a \<in> reach h' r \<longrightarrow> cells h' a = Some (NodeObj i d cs) \<longrightarrow>
             (\<exists>b cs0. cells h b = Some (NodeObj i d cs0))"
    using g fresh unfolding good_def by blast
  from a b c show ?thesis by blast
qed

lemma depth_le_forest_depth: "n \<in> set ns \<Longrightarrow> depth n \<le> forest_depth ns"
  unfolding forest_depth_def by (induction ns) auto

lemma repr_data_stable:
  assumes "\<And>b. b \<in> S \<Longrightarrow> cells h b \<noteq> None \<Longrightarrow> cells h' b = cells h b"
  shows "repr_data h S da d \<Longrightarrow> repr_data h' S da d"
  using assms by (auto simp: repr_data_def split: option.splits)

lemma repr_stable:
  assumes "\<And>b. b \<in> S \<Longrightarrow> cells h b \<noteq> None \<Longrightarrow> cells h' b = cells h b"
  shows "repr_node h S a n \<Longrightarrow> repr_node h' S a n"
    and "repr_nodes h S as ns \<Longrightarrow> repr_nodes h' S as ns"
  using assms
proof (induction h S a n and h S as ns rule: repr_node_repr_nodes.induct)
  case (1 h S a i d cs)
  from "1.prems"(1) obtain da ca refs where a: "a \<in> S" "cells h a = Some (NodeObj i da ca)"
    "repr_data h S da d" "ca \<in> S" "cells h ca = Some (ArrayObj refs)" "repr_nodes h S refs cs"
    by auto
  have "cells h' a = Some (NodeObj i da ca)" "cells h' ca = Some (ArrayObj refs)"
    using a "1.prems"(2) by auto
  moreover have "repr_data h' S da d"
    using a(3) "1.prems"(2) by (rule repr_data_stable [rotated])
  moreover have "repr_nodes h' S refs cs"
    using "1.IH" a(6) "1.prems"(2) by blast
  ultimately show ?case using a by auto
qed auto

lemma repr_mono:
  assumes "S \<subseteq> S'"
  shows "repr_node h S a n \<Longrightarrow> repr_node h S' a n"
    and "repr_nodes h S as ns \<Longrightarrow> repr_nodes h S' as ns"
  using assms
proof (induction h S a n and h S as ns rule: repr_node_repr_nodes.induct)
  case (1 h S a i d cs)
  from "1.prems"(1) obtain da ca refs where a: "a \<in> S" "cells h a = Some (NodeObj i da ca)"
    "repr_data h S da d" "ca \<in> S" "cells h ca = Some (ArrayObj refs)" "repr_nodes h S refs cs"
    by auto
  have "repr_data h S' da d"
    using a(3) "1.prems"(2) by (auto simp: repr_data_def split: option.splits)
  moreover have "repr_nodes h S' refs cs"
    using "1.IH" a(6) "1.prems"(2) by blast
  ultimately show ?case using a "1.prems"(2) by auto
qed auto

lemma repr_nodes_length: "repr_nodes h S as ns \<Longrightarrow> length as = length ns"
  by (induction as arbitrary: ns) (case_tac ns; simp)+

lemma repr_nodes_append:
  "repr_nodes h S as ns \<Longrightarrow> repr_nodes h S bs ms \<Longrightarrow> repr_nodes h S (as @ bs) (ns @ ms)"
proof (induction as arbitrary: ns)
  case Nil
  then show ?case by (cases ns) auto
next
  case (Cons a as)
  then show ?case by (cases ns) auto
qed


lemma good_old_cells: "good h0 h \<Longrightarrow> a < lim h0 \<Longrightarrow> cells h a = cells h0 a"
  by (simp add: good_def frame_def)

lemma good_below: "good h0 h \<Longrightarrow> cells h a \<noteq> None \<Longrightarrow> a < lim h"
  by (simp add: good_def)

lemma good_lim: "good h0 h \<Longrightarrow> lim h0 \<le> lim h"
  by (simp add: good_def frame_def)

lemma filterLoopH_refines:
  assumes q: "q \<noteq> []"
    and recg: "\<And>nodes h r h'. good h0 h \<Longrightarrow> nodes < lim h0 \<Longrightarrow> recur nodes h = Inr (r, h') \<Longrightarrow>
                good h0 h' \<and> frame h h' \<and> lim h \<le> r \<and> is_array h' r"
    and rec: "\<And>nodes h ns. good h0 h \<Longrightarrow> repr_forest h0 {a. a < lim h0} nodes ns \<Longrightarrow> D ns \<Longrightarrow>
                \<exists>r h'. recur nodes h = Inr (r, h')
                  \<and> repr_forest h' ({a. a < lim h0} \<union> {a. lim h \<le> a}) r (filterAndCloneTree lc ns q)"
  shows "good h0 h \<Longrightarrow> repr_nodes h0 {a. a < lim h0} refs ns \<Longrightarrow> \<forall>n \<in> set ns. D (children n) \<Longrightarrow>
         lim h0 \<le> fN \<Longrightarrow> fN < lim h \<Longrightarrow> cells h fN = Some (ArrayObj accrefs) \<Longrightarrow>
         repr_nodes h ({a. a < lim h0} \<union> {a. fN < a}) accrefs acc \<Longrightarrow>
         \<exists>h' refs'. filterLoopH lc recur q refs fN h = Inr h' \<and> cells h' fN = Some (ArrayObj refs')
            \<and> repr_nodes h' ({a. a < lim h0} \<union> {a. fN < a}) refs' (filterLoop lc ns q acc)"
proof (induction refs arbitrary: ns h accrefs acc)
  case Nil
  then show ?case by (cases ns) auto
next
  case (Cons node rest)
  let ?Old = "{a. a < lim h0}"
  let ?S = "?Old \<union> {a. fN < a}"
  note g = Cons.prems(1) and fNL = Cons.prems(4) and fNh = Cons.prems(5)
    and fNc = Cons.prems(6) and accr = Cons.prems(7)
  from Cons.prems(2) obtain n ns' where ns: "ns = n # ns'"
    and rn: "repr_node h0 ?Old node n" and rrest: "repr_nodes h0 ?Old rest ns'"
    by (cases ns) auto
  obtain i d cs where n: "n = Node i d cs" by (cases n)
  from rn n obtain da ca crefs where nodeL: "node < lim h0"
    and node0: "cells h0 node = Some (NodeObj i da ca)" and rd: "repr_data h0 ?Old da d"
    and caL: "ca < lim h0" and rcs: "repr_forest h0 ?Old ca cs"
    by (auto simp: repr_forest_def)
  have node: "cells h node = Some (NodeObj i da ca)"
    using good_old_cells [OF g nodeL] node0 by simp
  have Drest: "\<forall>n \<in> set ns'. D (children n)" and Dcs: "D cs"
    using Cons.prems(3) ns n by auto
  have cont: "\<exists>h' refs'. filterLoopH lc recur q rest fN h = Inr h' \<and> cells h' fN = Some (ArrayObj refs')
            \<and> repr_nodes h' ?S refs' (filterLoop lc ns' q acc)"
    using Cons.IH [OF g rrest Drest fNL fNh fNc accr] .
  show ?case
  proof (cases da)
    case None
    then have "d = None" using rd by (simp add: repr_data_def)
    moreover have "readItem h da = Inr None" using None by (simp add: readItem_def)
    ultimately show ?thesis using cont node by (simp add: ns n)
  next
    case (Some p)
    then obtain dat where pL: "p < lim h0" and p0: "cells h0 p = Some (DataObj dat)"
      and d: "d = Some dat"
      using rd by (auto simp: repr_data_def)
    have p: "cells h p = Some (DataObj dat)" using good_old_cells [OF g pL] p0 by simp
    have ri: "readItem h da = Inr (historyItem dat)" using Some p by (simp add: readItem_def)
    show ?thesis
    proof (cases "historyItem dat")
      case None
      then show ?thesis using cont node ri d by (simp add: ns n)
    next
      case (Some item)
      let ?F = "filterAndCloneTree lc cs q"
      obtain fc h1 where r: "recur ca h = Inr (fc, h1)"
        and rF: "repr_forest h1 (?Old \<union> {a. lim h \<le> a}) fc ?F"
        using rec [OF g rcs Dcs] by blast
      from recg [OF g caL r] have g1: "good h0 h1" and f1: "frame h h1" and fcL: "lim h \<le> fc"
        by auto
      from rF obtain kept where kept: "cells h1 fc = Some (ArrayObj kept)"
        and rkept: "repr_nodes h1 (?Old \<union> {a. lim h \<le> a}) kept ?F"
        by (auto simp: repr_forest_def)
      have len: "length kept = length ?F" using rkept by (rule repr_nodes_length)
      have fN1: "cells h1 fN = Some (ArrayObj accrefs)" "fN < lim h1"
        using f1 fNh fNc by (auto simp: frame_def)
      have acc1: "repr_nodes h1 ?S accrefs acc"
      proof (rule repr_stable(2) [OF _ accr])
        fix b assume "b \<in> ?S" "cells h b \<noteq> None"
        then have "b < lim h" using good_below [OF g] by blast
        then show "cells h1 b = cells h b" using f1 by (simp add: frame_def)
      qed
      define keep where "keep \<longleftrightarrow>
        (str_includes (lc (orEmpty (title item))) q
         \<or> str_includes (lc (orEmpty (url item))) q) \<or> length ?F > 0"
      show ?thesis
      proof (cases keep)
        case False
        have "\<exists>h' refs'. filterLoopH lc recur q rest fN h1 = Inr h' \<and> cells h' fN = Some (ArrayObj refs')
            \<and> repr_nodes h' ?S refs' (filterLoop lc ns' q acc)"
          using Cons.IH [OF g1 rrest Drest fNL fN1(2) fN1(1) acc1] .
        moreover have "filterLoopH lc recur q (node # rest) fN h = filterLoopH lc recur q rest fN h1"
          using node ri Some r kept len False by (simp add: keep_def Let_def)
        moreover have "filterLoop lc ns q acc = filterLoop lc ns' q acc"
          using False d Some by (simp add: ns n keep_def Let_def del: filterAndCloneTree.simps)
        ultimately show ?thesis by simp
      next
        case True
        let ?c = "lim h1"
        let ?h2 = "h1\<lparr>cells := (cells h1)(?c \<mapsto> NodeObj i da fc), lim := Suc ?c\<rparr>"
        let ?h3 = "?h2\<lparr>cells := (cells ?h2)(fN \<mapsto> ArrayObj (accrefs @ [?c]))\<rparr>"
        have al: "alloc (NodeObj i da fc) h1 = (?c, ?h2)" by (simp add: alloc_def)
        have pu: "push fN ?c ?h2 = Inr ?h3" using fN1 by (simp add: push_def)
        have L1: "lim h0 \<le> lim h1" using good_lim [OF g1] .
        have Lh: "lim h0 \<le> lim h" using good_lim [OF g] .
        have g2: "good h0 ?h2"
          using good_alloc(1) [OF g1 _ _ al] fcL Lh nodeL node0 by auto
        have g3: "good h0 ?h3"
          using good_push(1) [OF g2 fNL _ pu] L1 by simp
        have fcb: "fc < lim h1" using good_below [OF g1, of fc] kept by simp
        have acc3: "repr_nodes ?h3 ?S accrefs acc"
        proof (rule repr_stable(2) [OF _ acc1])
          fix b assume "b \<in> ?S" "cells h1 b \<noteq> None"
          then have "b < lim h1" "b \<noteq> fN" using good_below [OF g1] fNL by auto
          then show "cells ?h3 b = cells h1 b" by simp
        qed
        have kept3: "repr_nodes ?h3 ?S kept ?F"
        proof (rule repr_stable(2))
          have sub: "?Old \<union> {a. lim h \<le> a} \<subseteq> ?S" using fNh by auto
          show "repr_nodes h1 ?S kept ?F" by (rule repr_mono(2) [OF sub rkept])
        next
          fix b assume "b \<in> ?S" "cells h1 b \<noteq> None"
          then have "b < lim h1" "b \<noteq> fN" using good_below [OF g1] fNL by auto
          then show "cells ?h3 b = cells h1 b" by simp
        qed
        have data3: "repr_data ?h3 ?S da d"
          using \<open>da = Some p\<close> pL good_old_cells [OF g1 pL] p0 d fNL L1
          by (auto simp: repr_data_def)
        have clone: "repr_node ?h3 ?S ?c (Node i d ?F)"
          using fN1(2) fcb fcL fNh kept kept3 data3 by auto
        have acc': "repr_nodes ?h3 ?S (accrefs @ [?c]) (acc @ [Node i d ?F])"
          using repr_nodes_append [OF acc3, of "[?c]" "[Node i d ?F]"] clone by simp
        have "\<exists>h' refs'. filterLoopH lc recur q rest fN ?h3 = Inr h' \<and> cells h' fN = Some (ArrayObj refs')
            \<and> repr_nodes h' ?S refs' (filterLoop lc ns' q (acc @ [Node i d ?F]))"
          using Cons.IH [OF g3 rrest Drest fNL _ _ acc'] fN1(2) by simp
        moreover have "filterLoopH lc recur q (node # rest) fN h = filterLoopH lc recur q rest fN ?h3"
          using node ri Some r kept len True al pu by (simp add: keep_def Let_def)
        moreover have "filterLoop lc ns q acc = filterLoop lc ns' q (acc @ [Node i d ?F])"
          using True d Some by (simp add: ns n keep_def Let_def del: filterAndCloneTree.simps)
        ultimately show ?thesis by simp
      qed
    qed
  qed
qed


lemma repr_present:
  assumes "\<And>b. cells h b \<noteq> None \<Longrightarrow> b \<in> S'"
  shows "repr_node h S a n \<Longrightarrow> repr_node h S' a n"
    and "repr_nodes h S as ns \<Longrightarrow> repr_nodes h S' as ns"
  using assms
proof (induction h S a n and h S as ns rule: repr_node_repr_nodes.induct)
  case (1 h S a i d cs)
  from "1.prems"(1) obtain da ca refs where a: "a \<in> S" "cells h a = Some (NodeObj i da ca)"
    "repr_data h S da d" "ca \<in> S" "cells h ca = Some (ArrayObj refs)" "repr_nodes h S refs cs"
    by auto
  have "repr_data h S' da d"
    using a(3) "1.prems"(2) by (auto simp: repr_data_def split: option.splits)
  moreover have "repr_nodes h S' refs cs"
    using "1.IH" a(6) "1.prems"(2) by blast
  moreover have "a \<in> S'" "ca \<in> S'" using a "1.prems"(2) by auto
  ultimately show ?case using a by auto
qed auto

lemma forest_depth_children:
  assumes "n \<in> set ns" and "forest_depth ns < Suc fuel"
  shows "forest_depth (children n) < fuel"
proof -
  obtain i d cs where n: "n = Node i d cs" by (cases n)
  have "depth n \<le> forest_depth ns" using assms(1) by (rule depth_le_forest_depth)
  then show ?thesis using assms(2) by (simp add: n forest_depth_def)
qed

lemma filterAndCloneTreeH_refines:
  assumes ok: "heap_ok h0" and q: "q \<noteq> []"
  shows "good h0 h \<Longrightarrow> repr_forest h0 {a. a < lim h0} nodes ns \<Longrightarrow> forest_depth ns < fuel \<Longrightarrow>
         \<exists>r h'. filterAndCloneTreeH lc fuel q nodes h = Inr (r, h')
            \<and> repr_forest h' ({a. a < lim h0} \<union> {a. lim h \<le> a}) r (filterAndCloneTree lc ns q)"
proof (induction fuel arbitrary: nodes h ns)
  case 0
  then show ?case by simp
next
  case (Suc fuel)
  let ?Old = "{a. a < lim h0}"
  note g = Suc.prems(1)
  from Suc.prems(2) obtain refs where nodesL: "nodes < lim h0"
    and nodes0: "cells h0 nodes = Some (ArrayObj refs)" and rrefs: "repr_nodes h0 ?Old refs ns"
    by (auto simp: repr_forest_def)
  have nodes: "cells h nodes = Some (ArrayObj refs)"
    using good_old_cells [OF g nodesL] nodes0 by simp
  let ?fN = "lim h"
  let ?h1 = "h\<lparr>cells := (cells h)(?fN \<mapsto> ArrayObj []), lim := Suc ?fN\<rparr>"
  have al: "alloc (ArrayObj []) h = (?fN, ?h1)" by (simp add: alloc_def)
  have g1: "good h0 ?h1" using good_alloc(1) [OF g _ _ al] by simp
  have D: "\<forall>n \<in> set ns. forest_depth (children n) < fuel"
    using forest_depth_children Suc.prems(3) by blast
  have "\<exists>h' refs'. filterLoopH lc (filterAndCloneTreeH lc fuel q) q refs ?fN ?h1 = Inr h'
            \<and> cells h' ?fN = Some (ArrayObj refs')
            \<and> repr_nodes h' (?Old \<union> {a. ?fN < a}) refs' (filterLoop lc ns q [])"
  proof (rule filterLoopH_refines [OF q _ _ g1 rrefs D, where accrefs = "[]"])
    show "lim h0 \<le> ?fN" using good_lim [OF g] .
    show "?fN < lim ?h1" by simp
    show "cells ?h1 ?fN = Some (ArrayObj [])" by simp
    show "repr_nodes ?h1 (?Old \<union> {a. ?fN < a}) [] []" by simp
    show "\<And>nodes h r h'. good h0 h \<Longrightarrow> nodes < lim h0 \<Longrightarrow>
            filterAndCloneTreeH lc fuel q nodes h = Inr (r, h') \<Longrightarrow>
            good h0 h' \<and> frame h h' \<and> lim h \<le> r \<and> is_array h' r"
      using filterAndCloneTreeH_good [OF ok q] by blast
    show "\<And>nodes h ns. good h0 h \<Longrightarrow> repr_forest h0 ?Old nodes ns \<Longrightarrow> forest_depth ns < fuel \<Longrightarrow>
            \<exists>r h'. filterAndCloneTreeH lc fuel q nodes h = Inr (r, h')
              \<and> repr_forest h' (?Old \<union> {a. lim h \<le> a}) r (filterAndCloneTree lc ns q)"
      using Suc.IH by blast
  qed
  then obtain h' refs' where loop: "filterLoopH lc (filterAndCloneTreeH lc fuel q) q refs ?fN ?h1 = Inr h'"
    and arr: "cells h' ?fN = Some (ArrayObj refs')"
    and rr: "repr_nodes h' (?Old \<union> {a. ?fN < a}) refs' (filterLoop lc ns q [])"
    by blast
  have sub: "?Old \<union> {a. ?fN < a} \<subseteq> ?Old \<union> {a. ?fN \<le> a}" by auto
  have "repr_forest h' (?Old \<union> {a. ?fN \<le> a}) ?fN (filterAndCloneTree lc ns q)"
    using arr repr_mono(2) [OF sub rr] q by (simp add: repr_forest_def)
  moreover have "filterAndCloneTreeH lc (Suc fuel) q nodes h = Inr (?fN, h')"
    using q nodes al loop by simp
  ultimately show ?case by blast
qed

lemma example_heap_repr: "repr_forest example_heap UNIV 0 example_heap_forest"
  by (simp add: repr_forest_def repr_data_def example_heap_def example_heap_forest_def)

lemma example_heap_depth: "forest_depth example_heap_forest < 3"
  by (simp add: forest_depth_def example_heap_forest_def)

text \<open>
  C6. Let the array \<open>nodes\<close> of a heap in order denote the forest \<open>forest\<close>, and let
  the query be non-empty. Then \<open>filterAndCloneTree\<close> returns (given fuel for the
  levels of the forest, and whichever function \<^verbatim>\<open>toLowerCase\<close> is), and the array it returns denotes the projection that
  the function on trees computes. Every object of the heap it started from is as
  it was, so that \<open>nodes\<close> still denotes \<open>forest\<close>: no children array, node object
  or payload of the canonical forest was written. No array and no node object
  reached from the returned array is an object of the starting heap: the
  projection consists of newly allocated node objects and arrays. Every node
  object of the projection has the id and the payload reference of a node
  object of the starting heap: it is a shallow clone.
\<close>

theorem projection_is_fresh_clone:
  assumes ok: "heap_ok h" and q: "q \<noteq> []"
    and rep: "repr_forest h UNIV nodes forest" and fuel: "forest_depth forest < fuel"
  shows "\<exists>r h'. filterAndCloneTreeH toLowerCase fuel q nodes h = Inr (r, h')
       \<and> repr_forest h' UNIV r (filterAndCloneTree toLowerCase forest q)
       \<and> repr_forest h' UNIV nodes forest
       \<and> (\<forall>a obj. cells h a = Some obj \<longrightarrow> cells h' a = Some obj)
       \<and> reach h' r \<inter> dom (cells h) = {}
       \<and> (\<forall>a i d cs. a \<in> reach h' r \<longrightarrow> cells h' a = Some (NodeObj i d cs) \<longrightarrow>
             (\<exists>b cs0. cells h b = Some (NodeObj i d cs0)))"
proof -
  have present: "\<And>b. cells h b \<noteq> None \<Longrightarrow> b \<in> {a. a < lim h}"
    using ok by (auto simp: heap_ok_def)
  obtain refs where refs: "cells h nodes = Some (ArrayObj refs)" "repr_nodes h UNIV refs forest"
    using rep by (auto simp: repr_forest_def)
  have rep0: "repr_forest h {a. a < lim h} nodes forest"
    using refs repr_present(2) [OF present refs(2)] present [of nodes]
    by (simp add: repr_forest_def)
  obtain r h' where run: "filterAndCloneTreeH toLowerCase fuel q nodes h = Inr (r, h')"
    and res: "repr_forest h' ({a. a < lim h} \<union> {a. lim h \<le> a}) r (filterAndCloneTree toLowerCase forest q)"
    using filterAndCloneTreeH_refines [OF ok q good_start [OF ok] rep0 fuel] by blast
  have all: "{a. a < lim h} \<union> {a. lim h \<le> a} = UNIV" by auto
  have a: "repr_forest h' UNIV r (filterAndCloneTree toLowerCase forest q)" using res by (simp only: all)
  have frame: "(\<forall>a obj. cells h a = Some obj \<longrightarrow> cells h' a = Some obj)
       \<and> reach h' r \<inter> dom (cells h) = {}
       \<and> (\<forall>a i d cs. a \<in> reach h' r \<longrightarrow> cells h' a = Some (NodeObj i d cs) \<longrightarrow>
             (\<exists>b cs0. cells h b = Some (NodeObj i d cs0)))"
    using filterAndCloneTreeH_frame [OF ok q run] .
  have "repr_nodes h' UNIV refs forest"
  proof (rule repr_stable(2) [OF _ refs(2)])
    fix b assume "cells h b \<noteq> None"
    then show "cells h' b = cells h b" using frame by auto
  qed
  moreover have "cells h' nodes = Some (ArrayObj refs)" using refs(1) frame by blast
  ultimately have b: "repr_forest h' UNIV nodes forest" by (simp add: repr_forest_def)
  from run a b frame show ?thesis by blast
qed

theorem projection_is_fresh_clone_witness:
  "heap_ok example_heap \<and> str ''isabelle'' \<noteq> []
   \<and> repr_forest example_heap UNIV 0 example_heap_forest
   \<and> forest_depth example_heap_forest < 3
   \<and> filterAndCloneTree lowerLatin1 example_heap_forest (str ''isabelle'')
     = [Node 1 (Some (pageVisit 1 0 ''https://example.org/'' ''News'' 100))
         [Node 2 (Some (pageVisit 2 1 ''https://isabelle.in.tum.de/'' ''Isabelle'' 200)) []]]
   \<and> (\<exists>h'. filterAndCloneTreeH lowerLatin1 3 (str ''isabelle'') 0 example_heap = Inr (10, h')
          \<and> cells h' 10 = Some (ArrayObj [14])
          \<and> cells h' 14 = Some (NodeObj 1 (Some 2) 11)
          \<and> cells h' 1 = Some (NodeObj 1 (Some 2) 3)
          \<and> repr_forest h' UNIV 10
               [Node 1 (Some (pageVisit 1 0 ''https://example.org/'' ''News'' 100))
                 [Node 2 (Some (pageVisit 2 1 ''https://isabelle.in.tum.de/'' ''Isabelle'' 200)) []]]
          \<and> reach h' 10 \<inter> dom (cells example_heap) = {})"
proof -
  have q: "str ''isabelle'' \<noteq> []" by simp
  have pure: "filterAndCloneTree lowerLatin1 example_heap_forest (str ''isabelle'')
     = [Node 1 (Some (pageVisit 1 0 ''https://example.org/'' ''News'' 100))
         [Node 2 (Some (pageVisit 2 1 ''https://isabelle.in.tum.de/'' ''Isabelle'' 200)) []]]"
    by code_simp
  obtain h1 where h1: "filterAndCloneTreeH lowerLatin1 3 (str ''isabelle'') 0 example_heap = Inr (10, h1)"
    "cells h1 10 = Some (ArrayObj [14])" "cells h1 14 = Some (NodeObj 1 (Some 2) 11)"
    "cells h1 1 = Some (NodeObj 1 (Some 2) 3)"
    using example_heap_projection by blast
  obtain r h' where r: "filterAndCloneTreeH lowerLatin1 3 (str ''isabelle'') 0 example_heap = Inr (r, h')"
    "repr_forest h' UNIV r (filterAndCloneTree lowerLatin1 example_heap_forest (str ''isabelle''))"
    "reach h' r \<inter> dom (cells example_heap) = {}"
    using projection_is_fresh_clone [OF example_heap_ok q example_heap_repr example_heap_depth]
    by blast
  have "r = 10" "h' = h1" using r(1) h1(1) by simp_all
  then show ?thesis
    using r(2,3) h1 pure example_heap_ok q example_heap_repr example_heap_depth by auto
qed

end
